theory Spec2Isabelle
  imports Complex_Main "HOL-Library.Multiset"
begin

section \<open>Data model\<close>

text \<open>
  Token ids, document ids and positions are \<open>uint32_t\<close> in the source. They are modelled
  as natural numbers: every counter of the source is bounded by the number of documents or
  by the length of a document, so nothing wraps as long as the corpus itself fits the
  32-bit ids the source gives it. The two \<open>int\<close> parameters of \<open>CorpusMiner::mine\<close>
  are converted to unsigned types by the source; those conversions are written out below.
\<close>

type_synonym token = nat
type_synonym document = "token list"
type_synonym corpus = "document list"

text \<open>
  \<open>struct Phrase\<close>. The greedy engine stores occurrences \<open>(doc_id, pos)\<close>, the PrefixSpan
  engine stores a bare document id per occurrence, hence the type parameter. (The header of
  the greedy engine is not among the sources; its \<open>Phrase\<close> and \<open>Occurrence\<close> are read
  off the way \<open>corpus_miner.cpp\<close> builds and uses them.)
\<close>

record 'o phrase =
  tokens :: "token list"
  support :: nat
  occs :: "'o list"

record occurrence =
  doc_id :: nat
  pos :: nat

text \<open>\<open>struct Projection\<close>: an occurrence with the position at which the match began.\<close>

record projection = occurrence +
  origin :: nat

datatype MiningMode = MODE_ALL | MODE_CLOSED | MODE_MAXIMAL

section \<open>Hash containers\<close>

text \<open>
  \<open>std::unordered_map\<close> and \<open>std::unordered_set\<close> iterate in an order the C++ standard
  leaves to the implementation. A container is modelled as the list of its entries in
  order of first insertion; the implementation's choice is a parameter that maps the keys
  in insertion order to the keys in iteration order. Entries are fetched by key, so a key
  the map does not hold is never visited.
\<close>

record hash_order =
  umap_order :: "nat list \<Rightarrow> nat list"
  uset_order :: "nat list \<Rightarrow> nat list"
  useed_order :: "nat list list \<Rightarrow> nat list list"

definition insertion_order :: hash_order where
  "insertion_order = \<lparr>umap_order = (\<lambda>ks. ks), uset_order = (\<lambda>ks. ks), useed_order = (\<lambda>ks. ks)\<rparr>"

definition reverse_order :: hash_order where
  "reverse_order = \<lparr>umap_order = rev, uset_order = rev, useed_order = rev\<rparr>"

definition umap_find :: "('k \<times> 'v list) list \<Rightarrow> 'k \<Rightarrow> 'v list" where
  "umap_find m k = (case map_of m k of None \<Rightarrow> [] | Some vs \<Rightarrow> vs)"

fun umap_push_back :: "'k \<Rightarrow> 'v \<Rightarrow> ('k \<times> 'v list) list \<Rightarrow> ('k \<times> 'v list) list" where
  "umap_push_back k v [] = [(k, [v])]"
| "umap_push_back k v ((k', vs) # m) =
     (if k' = k then (k', vs @ [v]) # m else (k', vs) # umap_push_back k v m)"

definition umap_iter :: "('k list \<Rightarrow> 'k list) \<Rightarrow> ('k \<times> 'v) list \<Rightarrow> ('k \<times> 'v) list" where
  "umap_iter ord m = List.map_filter (\<lambda>k. map_option (Pair k) (map_of m k)) (ord (map fst m))"

definition uset_insert :: "'a \<Rightarrow> 'a list \<Rightarrow> 'a list" where
  "uset_insert x s = (if x \<in> set s then s else s @ [x])"

definition uset_iter :: "('a list \<Rightarrow> 'a list) \<Rightarrow> 'a list \<Rightarrow> 'a list" where
  "uset_iter ord s = filter (\<lambda>x. x \<in> set s) (ord s)"

section \<open>Contiguous PrefixSpan engine\<close>

subsection \<open>\<open>PrefixSpanEngine::run\<close>: the initial projected database\<close>

definition initial_db :: "corpus \<Rightarrow> projection list" where
  "initial_db docs =
     concat (map (\<lambda>i. if docs ! i \<noteq> []
                       then map (\<lambda>j. \<lparr>doc_id = i, pos = j, origin = j\<rparr>) [0..<length (docs ! i)]
                       else [])
                 [0..<length docs])"

definition initial_docs :: "corpus \<Rightarrow> nat list" where
  "initial_docs docs =
     fold (\<lambda>i s. if docs ! i \<noteq> [] then uset_insert i s else s) [0..<length docs] []"

subsection \<open>\<open>occ_delivery\<close>\<close>

definition occ_visit :: "corpus \<Rightarrow> projection \<Rightarrow> (token \<times> nat list) list \<Rightarrow> (token \<times> nat list) list" where
  "occ_visit docs proj item_supports =
     (let doc = docs ! doc_id proj in
      if pos proj < length doc then
        (let token = doc ! pos proj in
         if umap_find item_supports token = [] \<or> last (umap_find item_supports token) \<noteq> doc_id proj
         then umap_push_back token (doc_id proj) item_supports
         else item_supports)
      else item_supports)"

definition occ_delivery :: "corpus \<Rightarrow> projection list \<Rightarrow> (token \<times> nat list) list" where
  "occ_delivery docs db = fold (occ_visit docs) db []"

subsection \<open>\<open>mine_recursive\<close>\<close>

definition has_frequent_extension :: "nat \<Rightarrow> (token \<times> nat list) list \<Rightarrow> bool" where
  "has_frequent_extension min_docs item_supports =
     list_ex (\<lambda>(token, doc_ids). min_docs \<le> length doc_ids) item_supports"

definition has_extension_with_same_support :: "nat \<Rightarrow> nat \<Rightarrow> (token \<times> nat list) list \<Rightarrow> bool" where
  "has_extension_with_same_support min_docs current_support item_supports =
     list_ex (\<lambda>(token, doc_ids). min_docs \<le> length doc_ids \<and> length doc_ids = current_support)
       item_supports"

definition should_output ::
  "nat \<Rightarrow> nat \<Rightarrow> MiningMode \<Rightarrow> token list \<Rightarrow> nat \<Rightarrow> (token \<times> nat list) list \<Rightarrow> bool" where
  "should_output min_docs min_length mode prefix current_support item_supports =
     (min_length \<le> length prefix \<and>
      (case mode of
         MODE_ALL \<Rightarrow> True
       | MODE_MAXIMAL \<Rightarrow> \<not> has_frequent_extension min_docs item_supports
       | MODE_CLOSED \<Rightarrow> \<not> has_extension_with_same_support min_docs current_support item_supports))"

definition unique_docs :: "projection list \<Rightarrow> nat list" where
  "unique_docs db = fold (\<lambda>proj s. uset_insert (doc_id proj) s) db []"

definition emit_phrase :: "hash_order \<Rightarrow> projection list \<Rightarrow> token list \<Rightarrow> nat \<Rightarrow> nat phrase" where
  "emit_phrase ho db prefix current_support =
     \<lparr>tokens = prefix, support = current_support,
      occs = uset_iter (uset_order ho) (unique_docs db)\<rparr>"

definition next_db :: "corpus \<Rightarrow> projection list \<Rightarrow> token \<Rightarrow> projection list" where
  "next_db docs db token =
     map (\<lambda>proj. proj\<lparr>pos := pos proj + 1\<rparr>)
       (filter (\<lambda>proj. pos proj < length (docs ! doc_id proj)
                     \<and> docs ! doc_id proj ! pos proj = token
                     \<and> pos proj + 1 < length (docs ! doc_id proj)) db)"

definition db_size :: "corpus \<Rightarrow> projection list \<Rightarrow> nat" where
  "db_size docs db = sum_list (map (\<lambda>proj. length (docs ! doc_id proj) - pos proj) db)"

lemma db_size_next_db_le:
  "db_size docs (next_db docs db token) + length (next_db docs db token) \<le> db_size docs db"
  by (induction db) (auto simp: db_size_def next_db_def)

lemma db_size_next_db:
  "next_db docs db token \<noteq> [] \<Longrightarrow> db_size docs (next_db docs db token) < db_size docs db"
  using db_size_next_db_le [of docs db token]
  by (cases "next_db docs db token") auto

text \<open>
  The \<open>results\<close> vector is only ever appended to, so a call is modelled by the list of
  phrases it appends: its own phrase first, then those of its children in the order the
  hash map yields the extensions. The analysis loop before the output decision only asks
  whether some entry of the map has a property, which no order of iteration changes, so
  it reads the entries as they are. \<open>stop\<close> is the value of \<open>g_stop_requested\<close>.
\<close>

function mine_recursive ::
  "hash_order \<Rightarrow> bool \<Rightarrow> corpus \<Rightarrow> nat \<Rightarrow> nat \<Rightarrow> MiningMode \<Rightarrow>
   projection list \<Rightarrow> token list \<Rightarrow> nat \<Rightarrow> nat phrase list" where
  "mine_recursive ho stop docs min_docs min_length mode db prefix current_support =
     (if stop then []
      else
        (if should_output min_docs min_length mode prefix current_support (occ_delivery docs db)
         then [emit_phrase ho db prefix current_support] else [])
        @ concat (map (\<lambda>(token, doc_ids).
                    if min_docs \<le> length doc_ids \<and> next_db docs db token \<noteq> []
                    then mine_recursive ho stop docs min_docs min_length mode
                           (next_db docs db token) (prefix @ [token]) (length doc_ids)
                    else [])
                  (umap_iter (umap_order ho) (occ_delivery docs db))))"
  by pat_completeness auto
termination
  by (relation "measure (\<lambda>(ho, stop, docs, min_docs, min_length, mode, db, prefix, cs). db_size docs db)")
     (auto simp: db_size_next_db)

declare mine_recursive.simps [simp del]

definition run :: "hash_order \<Rightarrow> bool \<Rightarrow> corpus \<Rightarrow> nat \<Rightarrow> nat \<Rightarrow> MiningMode \<Rightarrow> nat phrase list" where
  "run ho stop docs min_docs min_length mode =
     mine_recursive ho stop docs min_docs min_length mode
       (initial_db docs) [] (length (initial_docs docs))"


section \<open>Greedy maximal extension engine\<close>

text \<open>
  The conversions \<open>(size_t)min_docs\<close>, \<open>(size_t)ngrams\<close> and
  \<open>static_cast<uint32_t>(...)\<close> of a C \<open>int\<close>: a negative value wraps to the top of
  the unsigned range.
\<close>

definition size_t_of_int :: "int \<Rightarrow> nat" where
  "size_t_of_int i = (if i < 0 then nat (2 ^ 64 + i) else nat i)"

definition uint32_of_int :: "int \<Rightarrow> nat" where
  "uint32_of_int i = (if i < 0 then nat (2 ^ 32 + i) else nat i)"

text \<open>
  A read outside a vector and the conversion to \<open>size_t\<close> of a \<open>double\<close> that has no
  \<open>size_t\<close> value are undefined behaviour in the source; the model reports them.
\<close>

datatype error = OutOfRange | UndefinedCast

subsection \<open>Step 1: seeds and candidates\<close>

definition ngram_at :: "document \<Rightarrow> nat \<Rightarrow> int \<Rightarrow> token list" where
  "ngram_at doc p ngrams = map (\<lambda>i. doc ! (p + i)) [0..<nat ngrams]"

definition doc_seeds :: "corpus \<Rightarrow> int \<Rightarrow> nat \<Rightarrow> (token list \<times> occurrence) list" where
  "doc_seeds docs ngrams d =
     (if length (docs ! d) < size_t_of_int ngrams then []
      else map (\<lambda>p. (ngram_at (docs ! d) p ngrams, \<lparr>doc_id = d, pos = p\<rparr>))
             [0..<Suc (length (docs ! d) - size_t_of_int ngrams)])"

definition gather_seeds :: "corpus \<Rightarrow> int \<Rightarrow> (token list \<times> occurrence list) list" where
  "gather_seeds docs ngrams =
     fold (\<lambda>(ngram, oc). umap_push_back ngram oc)
       (concat (map (doc_seeds docs ngrams) [0..<length docs])) []"

definition distinct_docs :: "occurrence list \<Rightarrow> nat" where
  "distinct_docs os = length (fold (\<lambda>oc s. uset_insert (doc_id oc) s) os [])"

definition seed_candidates ::
  "hash_order \<Rightarrow> int \<Rightarrow> (token list \<times> occurrence list) list \<Rightarrow> occurrence phrase list" where
  "seed_candidates ho min_docs seeds =
     List.map_filter
       (\<lambda>(toks, os). if size_t_of_int min_docs \<le> distinct_docs os
                      then Some \<lparr>tokens = toks, support = distinct_docs os, occs = os\<rparr>
                      else None)
       (umap_iter (useed_order ho) seeds)"

subsection \<open>Step 2: \<open>std::sort\<close>\<close>

text \<open>
  \<open>std::sort\<close> with a comparator \<open>cmp\<close>. The standard leaves the relative order of
  equivalent elements open; the model keeps it (for the greedy engine every such order is
  reached by a suitable iteration order of the seed map).
\<close>

fun insert_sorted :: "('a \<Rightarrow> 'a \<Rightarrow> bool) \<Rightarrow> 'a \<Rightarrow> 'a list \<Rightarrow> 'a list" where
  "insert_sorted cmp x [] = [x]"
| "insert_sorted cmp x (y # ys) =
     (if cmp y x then y # insert_sorted cmp x ys else x # y # ys)"

definition std_sort :: "('a \<Rightarrow> 'a \<Rightarrow> bool) \<Rightarrow> 'a list \<Rightarrow> 'a list" where
  "std_sort cmp xs = foldr (insert_sorted cmp) xs []"

subsection \<open>Step 3: expansion with path compression\<close>

text \<open>The freshness check; the result is the value of \<open>skip\<close>.\<close>

fun all_starts_processed :: "bool list list \<Rightarrow> occurrence list \<Rightarrow> error + bool" where
  "all_starts_processed processed [] = Inr True"
| "all_starts_processed processed (oc # os) =
     (if doc_id oc < length processed \<and> pos oc < length (processed ! doc_id oc)
      then (if \<not> processed ! doc_id oc ! pos oc then Inr False
            else all_starts_processed processed os)
      else Inl OutOfRange)"

definition next_word_occs :: "corpus \<Rightarrow> occurrence phrase \<Rightarrow> (token \<times> occurrence list) list" where
  "next_word_occs docs cand =
     fold (\<lambda>oc m. let np = pos oc + length (tokens cand) in
                   if np < length (docs ! doc_id oc)
                   then umap_push_back (docs ! doc_id oc ! np) oc m else m)
       (occs cand) []"

text \<open>The state of the selection loop is \<open>(best_word, max_support, best_next_occs)\<close>.\<close>

definition best_step ::
  "int \<Rightarrow> token \<times> occurrence list \<Rightarrow> token \<times> nat \<times> occurrence list
       \<Rightarrow> token \<times> nat \<times> occurrence list" where
  "best_step min_docs = (\<lambda>(word, os) (best_word, max_support, best_next_occs).
     if size_t_of_int min_docs \<le> distinct_docs os \<and> max_support \<le> distinct_docs os
     then (word, distinct_docs os, os)
     else (best_word, max_support, best_next_occs))"

definition choose_best :: "int \<Rightarrow> (token \<times> occurrence list) list \<Rightarrow> token \<times> nat \<times> occurrence list" where
  "choose_best min_docs entries = fold (best_step min_docs) entries (0, 0, [])"

definition extension_room :: "corpus \<Rightarrow> occurrence phrase \<Rightarrow> nat" where
  "extension_room docs cand =
     sum_list (map (\<lambda>oc. length (docs ! doc_id oc) - (pos oc + length (tokens cand))) (occs cand))"


subsection \<open>Facts about the hash-map model\<close>

lemma map_of_umap_push_back:
  "map_of (umap_push_back k v m) =
     (map_of m)(k \<mapsto> (case map_of m k of None \<Rightarrow> [v] | Some vs \<Rightarrow> vs @ [v]))"
  by (induction m) (auto simp: fun_eq_iff)

lemma umap_iter_map_of: "(k, v) \<in> set (umap_iter ord m) \<Longrightarrow> map_of m k = Some v"
  by (auto simp: umap_iter_def List.map_filter_def)

definition bucket :: "('x \<Rightarrow> bool) \<Rightarrow> ('x \<Rightarrow> 'k) \<Rightarrow> ('x \<Rightarrow> 'v) \<Rightarrow> 'x list \<Rightarrow> 'k \<Rightarrow> 'v list" where
  "bucket P kf vf xs k = map vf (filter (\<lambda>x. P x \<and> kf x = k) xs)"

lemma map_of_fold_push_back:
  "map_of (fold (\<lambda>x m. if P x then umap_push_back (kf x) (vf x) m else m) xs []) k =
     (if bucket P kf vf xs k = [] then None else Some (bucket P kf vf xs k))"
proof (induction xs rule: rev_induct)
  case Nil
  show ?case by (simp add: bucket_def)
next
  case (snoc x xs)
  then show ?case
    by (auto simp: bucket_def map_of_umap_push_back)
qed

lemma uset_fold_set: "set (fold (\<lambda>x s. uset_insert (f x) s) xs s0) = set s0 \<union> f ` set xs"
  by (induction xs arbitrary: s0) (auto simp: uset_insert_def)

lemma uset_fold_distinct: "distinct s0 \<Longrightarrow> distinct (fold (\<lambda>x s. uset_insert (f x) s) xs s0)"
  by (induction xs arbitrary: s0) (auto simp: uset_insert_def)

lemma distinct_docs_card: "distinct_docs os = card (doc_id ` set os)"
proof -
  have "distinct (fold (\<lambda>oc s. uset_insert (doc_id oc) s) os [])"
    by (rule uset_fold_distinct) simp
  then have "length (fold (\<lambda>oc s. uset_insert (doc_id oc) s) os []) =
             card (set (fold (\<lambda>oc s. uset_insert (doc_id oc) s) os []))"
    by (simp add: distinct_card)
  then show ?thesis by (simp add: distinct_docs_def uset_fold_set)
qed

lemma distinct_docs_pos: "0 < distinct_docs os \<Longrightarrow> os \<noteq> []"
  by (auto simp: distinct_docs_card)

lemma fold_best_step_cases:
  "fold (best_step min_docs) entries st = (w, s, os) \<Longrightarrow>
     (w, s, os) = st \<or>
     ((w, os) \<in> set entries \<and> s = distinct_docs os \<and> size_t_of_int min_docs \<le> s)"
proof (induction entries arbitrary: st)
  case Nil
  then show ?case by simp
next
  case (Cons e entries)
  obtain word eos where e: "e = (word, eos)" by (cases e)
  obtain bw ms bo where st: "st = (bw, ms, bo)" by (cases st)
  from Cons.prems have "fold (best_step min_docs) entries (best_step min_docs e st) = (w, s, os)"
    by simp
  from Cons.IH [OF this] show ?case
    by (auto simp: e st best_step_def split: if_splits)
qed

lemma choose_best_cases:
  "choose_best min_docs entries = (w, s, os) \<Longrightarrow> 0 < s \<Longrightarrow>
     (w, os) \<in> set entries \<and> s = distinct_docs os \<and> size_t_of_int min_docs \<le> s"
  unfolding choose_best_def by (drule fold_best_step_cases) auto

definition follows :: "corpus \<Rightarrow> nat \<Rightarrow> token \<Rightarrow> occurrence \<Rightarrow> bool" where
  "follows docs n w =
     (\<lambda>oc. pos oc + n < length (docs ! doc_id oc) \<and> docs ! doc_id oc ! (pos oc + n) = w)"

lemma next_word_occs_bucket:
  assumes "map_of (next_word_occs docs cand) w = Some os"
  shows "os = filter (follows docs (length (tokens cand)) w) (occs cand)"
proof -
  have "next_word_occs docs cand =
        fold (\<lambda>oc m. if pos oc + length (tokens cand) < length (docs ! doc_id oc)
                      then umap_push_back (docs ! doc_id oc ! (pos oc + length (tokens cand))) ((\<lambda>x. x) oc) m
                      else m) (occs cand) []"
    by (simp add: next_word_occs_def Let_def)
  then have "map_of (next_word_occs docs cand) w =
     (if bucket (\<lambda>oc. pos oc + length (tokens cand) < length (docs ! doc_id oc))
                (\<lambda>oc. docs ! doc_id oc ! (pos oc + length (tokens cand))) (\<lambda>x. x) (occs cand) w = [] then None
      else Some (bucket (\<lambda>oc. pos oc + length (tokens cand) < length (docs ! doc_id oc))
                (\<lambda>oc. docs ! doc_id oc ! (pos oc + length (tokens cand))) (\<lambda>x. x) (occs cand) w))"
    by (simp only: map_of_fold_push_back)
  with assms show ?thesis
    by (simp add: bucket_def follows_def split: if_splits)
qed

lemma extension_room_filter:
  assumes "os = filter (follows docs (length toks) w) ocs" "os \<noteq> []"
  shows "sum_list (map (\<lambda>oc. length (docs ! doc_id oc) - Suc (pos oc + length toks)) os)
       < sum_list (map (\<lambda>oc. length (docs ! doc_id oc) - (pos oc + length toks)) ocs)"
proof -
  have "sum_list (map (\<lambda>oc. length (docs ! doc_id oc) - Suc (pos oc + length toks))
                   (filter (follows docs (length toks) w) ocs))
        + length (filter (follows docs (length toks) w) ocs)
       \<le> sum_list (map (\<lambda>oc. length (docs ! doc_id oc) - (pos oc + length toks)) ocs)"
    by (induction ocs) (auto simp: follows_def)
  moreover have "0 < length (filter (follows docs (length toks) w) ocs)"
    using assms by simp
  ultimately show ?thesis unfolding assms(1) by linarith
qed

text \<open>
  The \<open>while (true)\<close> loop of the expansion. Every round that does not leave the loop
  keeps only occurrences with a token after the phrase and makes the phrase one token
  longer, so the room left behind the occurrences shrinks.
\<close>

function expand :: "hash_order \<Rightarrow> corpus \<Rightarrow> int \<Rightarrow> occurrence phrase \<Rightarrow> occurrence phrase" where
  "expand ho docs min_docs cand =
     (case choose_best min_docs (umap_iter (umap_order ho) (next_word_occs docs cand)) of
        (best_word, max_support, best_next_occs) \<Rightarrow>
          if 0 < max_support
          then expand ho docs min_docs
                 \<lparr>tokens = tokens cand @ [best_word], support = max_support, occs = best_next_occs\<rparr>
          else cand)"
  by pat_completeness auto
termination
proof (relation "measure (\<lambda>(ho, docs, min_docs, cand). extension_room docs cand)", goal_cases)
  case 1
  show ?case by simp
next
  case (2 ho docs min_docs cand best_word y max_support best_next_occs)
  then have cb: "choose_best min_docs (umap_iter (umap_order ho) (next_word_occs docs cand))
                  = (best_word, max_support, best_next_occs)"
    by simp
  from choose_best_cases [OF cb \<open>0 < max_support\<close>]
  have mem: "(best_word, best_next_occs) \<in> set (umap_iter (umap_order ho) (next_word_occs docs cand))"
    and ne: "best_next_occs \<noteq> []"
    using \<open>0 < max_support\<close> by (auto dest: distinct_docs_pos)
  from next_word_occs_bucket [OF umap_iter_map_of [OF mem]] ne
  show ?case
    by (simp add: extension_room_def extension_room_filter)
qed

declare expand.simps [simp del]

text \<open>Marking: \<open>processed[o.doc_id][o.pos + i] = 1\<close> for every position inside the vector.\<close>

definition mark_occurrence :: "nat \<Rightarrow> occurrence \<Rightarrow> bool list list \<Rightarrow> bool list list" where
  "mark_occurrence n oc processed =
     fold (\<lambda>i pr. if pos oc + i < length (pr ! doc_id oc)
                   then pr[doc_id oc := (pr ! doc_id oc)[pos oc + i := True]] else pr)
       [0..<n] processed"

definition mark_positions :: "occurrence phrase \<Rightarrow> bool list list \<Rightarrow> bool list list" where
  "mark_positions cand processed =
     fold (mark_occurrence (length (tokens cand))) (occs cand) processed"

text \<open>
  The loop over the sorted candidates. \<open>stop c_idx\<close> is the value of
  \<open>g_stop_requested\<close> when candidate \<open>c_idx\<close> is reached.
\<close>

fun mine_loop ::
  "hash_order \<Rightarrow> (nat \<Rightarrow> bool) \<Rightarrow> corpus \<Rightarrow> int \<Rightarrow> nat \<Rightarrow> occurrence phrase list \<Rightarrow>
   bool list list \<Rightarrow> occurrence phrase list \<Rightarrow> error + occurrence phrase list" where
  "mine_loop ho stop docs min_docs c_idx [] processed final_phrases = Inr final_phrases"
| "mine_loop ho stop docs min_docs c_idx (cand # rest) processed final_phrases =
     (if stop c_idx then Inr final_phrases
      else case all_starts_processed processed (occs cand) of
             Inl e \<Rightarrow> Inl e
           | Inr skip \<Rightarrow>
               if skip then mine_loop ho stop docs min_docs (Suc c_idx) rest processed final_phrases
               else mine_loop ho stop docs min_docs (Suc c_idx) rest
                      (mark_positions (expand ho docs min_docs cand) processed)
                      (final_phrases @ [expand ho docs min_docs cand]))"

text \<open>The run in which no interrupt arrives.\<close>

definition never_stop :: "nat \<Rightarrow> bool" where
  "never_stop c_idx = False"

definition gme_candidates :: "hash_order \<Rightarrow> corpus \<Rightarrow> int \<Rightarrow> int \<Rightarrow> occurrence phrase list" where
  "gme_candidates ho docs min_docs ngrams =
     std_sort (\<lambda>a b. support b < support a)
       (seed_candidates ho min_docs (gather_seeds docs ngrams))"

text \<open>\<open>CorpusMiner::mine\<close> of the greedy engine, up to the call of \<open>save_to_csv\<close>.\<close>

definition gme_mine ::
  "hash_order \<Rightarrow> (nat \<Rightarrow> bool) \<Rightarrow> corpus \<Rightarrow> int \<Rightarrow> int \<Rightarrow> error + occurrence phrase list" where
  "gme_mine ho stop docs min_docs ngrams =
     mine_loop ho stop docs min_docs 0 (gme_candidates ho docs min_docs ngrams)
       (map (\<lambda>d. replicate (length d) False) docs) []"


section \<open>Support of a pattern in the corpus\<close>

text \<open>
  The distinct-doc support of a token sequence, from the corpus alone: the number of
  documents in which it occurs as a contiguous run.
\<close>

definition occurs_at :: "document \<Rightarrow> token list \<Rightarrow> nat \<Rightarrow> bool" where
  "occurs_at doc toks j \<longleftrightarrow>
     j + length toks \<le> length doc \<and> take (length toks) (drop j doc) = toks"

definition contains_phrase :: "token list \<Rightarrow> document \<Rightarrow> bool" where
  "contains_phrase toks doc = list_ex (occurs_at doc toks) [0..<Suc (length doc)]"

definition doc_support :: "corpus \<Rightarrow> token list \<Rightarrow> nat" where
  "doc_support docs toks = length (filter (contains_phrase toks) docs)"

section \<open>Properties of the PrefixSpan engine\<close>

subsection \<open>The initial projected database\<close>

text \<open>
  Claim C3, as stated: when mining begins, the initial projected database contains exactly
  the continuation point \<open>(d, 0)\<close> for every non-empty document \<open>d\<close>. The source pushes
  one projection for every position of every non-empty document; on the one-document corpus
  \<open>[[7, 8]]\<close> the database holds \<open>(0, 1)\<close> as well.
\<close>

theorem initial_db_counterexample:
  "initial_db [[7, 8]] =
     [\<lparr>doc_id = 0, pos = 0, origin = 0\<rparr>, \<lparr>doc_id = 0, pos = 1, origin = 1\<rparr>]"
  by (simp add: initial_db_def)

text \<open>
  Claim C3, amended: the initial projected database contains exactly the continuation
  points \<open>(d, j)\<close>, with origin \<open>j\<close>, for every document \<open>d\<close> and every position
  \<open>j < |d|\<close> (so nothing for an empty document).
\<close>

theorem initial_db_contents:
  "set (initial_db docs) =
     {\<lparr>doc_id = d, pos = j, origin = j\<rparr> | d j. d < length docs \<and> j < length (docs ! d)}"
  by (auto simp: initial_db_def)

subsection \<open>Termination and recursion depth\<close>

text \<open>
  The recursion of \<open>mine_recursive\<close> with a depth budget: \<open>None\<close> when a call would
  nest deeper than the budget allows.
\<close>

fun mine_recursive_fuel ::
  "nat \<Rightarrow> hash_order \<Rightarrow> bool \<Rightarrow> corpus \<Rightarrow> nat \<Rightarrow> nat \<Rightarrow> MiningMode \<Rightarrow>
   projection list \<Rightarrow> token list \<Rightarrow> nat \<Rightarrow> nat phrase list option" where
  "mine_recursive_fuel 0 ho stop docs min_docs min_length mode db prefix current_support = None"
| "mine_recursive_fuel (Suc depth) ho stop docs min_docs min_length mode db prefix current_support =
     (if stop then Some []
      else
        map_option
          (\<lambda>children.
             (if should_output min_docs min_length mode prefix current_support (occ_delivery docs db)
              then [emit_phrase ho db prefix current_support] else [])
             @ concat children)
          (those (map (\<lambda>(token, doc_ids).
                    if min_docs \<le> length doc_ids \<and> next_db docs db token \<noteq> []
                    then mine_recursive_fuel depth ho stop docs min_docs min_length mode
                           (next_db docs db token) (prefix @ [token]) (length doc_ids)
                    else Some [])
                  (umap_iter (umap_order ho) (occ_delivery docs db)))))"

text \<open>The room behind the continuation points of a database, and the longest document.\<close>

definition db_room :: "corpus \<Rightarrow> projection list \<Rightarrow> nat" where
  "db_room docs db = fold max (map (\<lambda>proj. length (docs ! doc_id proj) - pos proj) db) 0"

definition longest :: "corpus \<Rightarrow> nat" where
  "longest docs = fold max (map length docs) 0"

lemma fold_max_ge: "a \<le> fold max xs (a::nat)"
  by (induction xs arbitrary: a) (auto intro: order_trans [OF max.cobounded2])

lemma fold_max_le: "fold max xs a \<le> (b::nat) \<longleftrightarrow> a \<le> b \<and> (\<forall>x \<in> set xs. x \<le> b)"
  by (induction xs arbitrary: a) auto

lemma db_room_le: "db_room docs db \<le> n \<longleftrightarrow> (\<forall>proj \<in> set db. length (docs ! doc_id proj) - pos proj \<le> n)"
  by (simp add: db_room_def fold_max_le)

lemma longest_ge: "d < length docs \<Longrightarrow> length (docs ! d) \<le> longest docs"
  using fold_max_le [of "map length docs" 0 "longest docs"]
  by (simp add: longest_def)

lemma db_room_next_db:
  assumes "db_room docs db \<le> Suc n"
  shows "db_room docs (next_db docs db token) \<le> n"
  using assms unfolding db_room_le next_db_def by fastforce

lemma next_db_room_pos:
  assumes "next_db docs db token \<noteq> []"
  shows "0 < db_room docs (next_db docs db token)"
proof -
  from assms obtain q where q: "q \<in> set (next_db docs db token)"
    by (cases "next_db docs db token") auto
  then have "0 < length (docs ! doc_id q) - pos q"
    by (auto simp: next_db_def)
  moreover have "length (docs ! doc_id q) - pos q \<le> db_room docs (next_db docs db token)"
    using q db_room_le [of docs "next_db docs db token" "db_room docs (next_db docs db token)"] by simp
  ultimately show ?thesis by linarith
qed

lemma those_map_Some:
  assumes "\<And>x. x \<in> set xs \<Longrightarrow> f x = Some (g x)"
  shows "those (map f xs) = Some (map g xs)"
  using assms by (induction xs) auto

lemma mine_recursive_fuel_enough:
  "0 < fuel \<Longrightarrow> db_room docs db \<le> fuel \<Longrightarrow>
   mine_recursive_fuel fuel ho stop docs min_docs min_length mode db prefix cs =
     Some (mine_recursive ho stop docs min_docs min_length mode db prefix cs)"
proof (induction fuel arbitrary: db prefix cs)
  case 0
  then show ?case by simp
next
  case (Suc n)
  let ?items = "umap_iter (umap_order ho) (occ_delivery docs db)"
  let ?f = "\<lambda>(token, doc_ids).
                    if min_docs \<le> length doc_ids \<and> next_db docs db token \<noteq> []
                    then mine_recursive_fuel n ho stop docs min_docs min_length mode
                           (next_db docs db token) (prefix @ [token]) (length doc_ids)
                    else Some []"
  let ?g = "\<lambda>(token, doc_ids).
                    if min_docs \<le> length doc_ids \<and> next_db docs db token \<noteq> []
                    then mine_recursive ho stop docs min_docs min_length mode
                           (next_db docs db token) (prefix @ [token]) (length doc_ids)
                    else []"
  have child: "?f x = Some (?g x)" if "x \<in> set ?items" for x
  proof -
    obtain token doc_ids where x: "x = (token, doc_ids)" by (cases x)
    show ?thesis
    proof (cases "min_docs \<le> length doc_ids \<and> next_db docs db token \<noteq> []")
      case False
      then show ?thesis by (auto simp: x)
    next
      case True
      then have ne: "next_db docs db token \<noteq> []" by simp
      have "db_room docs (next_db docs db token) \<le> n"
        using Suc.prems(2) by (rule db_room_next_db)
      moreover have "0 < db_room docs (next_db docs db token)"
        using ne by (rule next_db_room_pos)
      ultimately have "mine_recursive_fuel n ho stop docs min_docs min_length mode
                           (next_db docs db token) (prefix @ [token]) (length doc_ids) =
             Some (mine_recursive ho stop docs min_docs min_length mode
                           (next_db docs db token) (prefix @ [token]) (length doc_ids))"
        by (intro Suc.IH) auto
      with True show ?thesis by (simp add: x)
    qed
  qed
  have "those (map ?f ?items) = Some (map ?g ?items)"
    by (rule those_map_Some) (rule child)
  then show ?case
    by (subst mine_recursive.simps) simp
qed

lemma initial_db_doc_id: "proj \<in> set (initial_db docs) \<Longrightarrow> doc_id proj < length docs"
  by (auto simp: initial_db_def split: if_splits)

lemma initial_db_room: "db_room docs (initial_db docs) \<le> longest docs"
  unfolding db_room_le
  by (auto simp: initial_db_def intro: order_trans [OF diff_le_self longest_ge] split: if_splits)

text \<open>
  Claim C10: \<open>mine_recursive\<close> terminates for every corpus and every parameter setting.
  A child database holds continuation points of its parent advanced by exactly one position
  and still inside their document, so the calls never nest deeper than the longest document
  is long: with a depth budget of that length (at least one, for the call itself) the
  budgeted recursion returns, and returns what \<open>mine_recursive\<close> returns.
\<close>

theorem mine_recursive_terminates:
  assumes "\<forall>proj \<in> set db. doc_id proj < length docs"
    and "max 1 (longest docs) \<le> fuel"
  shows "mine_recursive_fuel fuel ho stop docs min_docs min_length mode db prefix cs =
           Some (mine_recursive ho stop docs min_docs min_length mode db prefix cs)
         \<and> (\<forall>q \<in> set (next_db docs db token).
              pos q < length (docs ! doc_id q) \<and>
              (\<exists>p \<in> set db. q = p\<lparr>pos := pos p + 1\<rparr> \<and> docs ! doc_id p ! pos p = token))"
proof
  have "db_room docs db \<le> longest docs"
    unfolding db_room_le using assms(1)
    by (auto intro: order_trans [OF diff_le_self longest_ge])
  with assms(2) have "0 < fuel" "db_room docs db \<le> fuel" by auto
  then show "mine_recursive_fuel fuel ho stop docs min_docs min_length mode db prefix cs =
           Some (mine_recursive ho stop docs min_docs min_length mode db prefix cs)"
    by (rule mine_recursive_fuel_enough)
next
  show "\<forall>q \<in> set (next_db docs db token).
              pos q < length (docs ! doc_id q) \<and>
              (\<exists>p \<in> set db. q = p\<lparr>pos := pos p + 1\<rparr> \<and> docs ! doc_id p ! pos p = token)"
    by (auto simp: next_db_def)
qed

theorem mine_recursive_terminates_witness:
  "mine_recursive_fuel 3 insertion_order False [[0, 1], [0, 1, 2]] 2 2 MODE_CLOSED
       (initial_db [[0, 1], [0, 1, 2]]) [] 2 =
     Some [\<lparr>tokens = [0, 1], support = 2, occs = [1]\<rparr>]
   \<and> next_db [[0, 1], [0, 1, 2]] (initial_db [[0, 1], [0, 1, 2]]) 1 =
       [\<lparr>doc_id = 1, pos = 2, origin = 1\<rparr>]"
proof -
  have a: "\<forall>proj \<in> set (initial_db [[0, 1], [0, 1, 2]]). doc_id proj < length [[0, 1], [0, 1, 2::nat]]"
    by (auto dest: initial_db_doc_id)
  have b: "max 1 (longest [[0, 1], [0, 1, 2]]) \<le> 3"
    by (simp add: longest_def)
  have c: "mine_recursive insertion_order False [[0, 1], [0, 1, 2]] 2 2 MODE_CLOSED
       (initial_db [[0, 1], [0, 1, 2]]) [] 2 = [\<lparr>tokens = [0, 1], support = 2, occs = [1]\<rparr>]"
    by code_simp
  have d: "next_db [[0, 1], [0, 1, 2]] (initial_db [[0, 1], [0, 1, 2]]) 1 =
       [\<lparr>doc_id = 1, pos = 2, origin = 1\<rparr>]"
    by code_simp
  from mine_recursive_terminates [OF a b, of insertion_order False 2 2 MODE_CLOSED "[]" 2 1] c d
  show ?thesis by simp
qed


text \<open>
  \<open>CorpusMiner::mine\<close> of the PrefixSpan engine, up to the call of \<open>save_to_csv\<close>: the
  parameters are converted to \<open>uint32_t\<close> and the mode is fixed to \<open>MODE_CLOSED\<close>.
\<close>

definition cps_mine ::
  "hash_order \<Rightarrow> bool \<Rightarrow> string list \<Rightarrow> corpus \<Rightarrow> int \<Rightarrow> int \<Rightarrow> nat phrase list" where
  "cps_mine ho stop file_paths docs min_docs ngrams =
     (if file_paths = [] then []
      else run ho stop docs (uint32_of_int min_docs) (uint32_of_int ngrams) MODE_CLOSED)"

subsection \<open>Support and occurrences of an emitted phrase\<close>

text \<open>
  Claim C1: the support field of an emitted phrase equals the number of distinct document
  ids among the occurrences emitted with it. The PrefixSpan engine breaks this: the support
  is the number of documents that contain the phrase, the occurrences are collected from
  the projected database, and the database has lost every match that ends at the last
  token of its document. On the corpus \<open>a b\<close>, \<open>a b c\<close> (tokens 0, 1, 2) with
  \<open>min_docs = 2\<close> and \<open>ngrams = 2\<close> the phrase \<open>a b\<close> is emitted with support 2 and the
  single occurrence document 1.
\<close>

theorem cps_support_exceeds_occurrences:
  "cps_mine insertion_order False [''row_0'', ''row_1''] [[0, 1], [0, 1, 2]] 2 2 =
     [\<lparr>tokens = [0, 1], support = 2, occs = [1]\<rparr>]"
  by code_simp

subsection \<open>Completeness in \<open>MODE_ALL\<close>\<close>

text \<open>
  Claim C2: in \<open>MODE_ALL\<close> every contiguous pattern of length at least \<open>L\<close> that occurs
  in at least \<open>min_docs\<close> documents is emitted. The engine recurses into an extension only
  when the child database is not empty, and the child database drops the matches that end
  at the last token of a document; a pattern all of whose matches end there is never
  visited. On the single document \<open>a b\<close> with \<open>min_docs = 1\<close> and \<open>L = 2\<close> nothing is
  emitted although \<open>a b\<close> occurs in one document, and on \<open>a b c a b c a b c\<close> the patterns emitted are the eighteen below: the
  three frequent patterns that only occur as a suffix of the document, such as
  \<open>c a b c a b c\<close> and the document itself, are missing.
\<close>

theorem cps_all_misses_document_end:
  "run insertion_order False [[0, 1]] 1 2 MODE_ALL = []
   \<and> doc_support [[0, 1]] [0, 1] = 1
   \<and> doc_support [[0, 1, 2, 0, 1, 2, 0, 1, 2]] [2, 0, 1, 2, 0, 1, 2] = 1
   \<and> map tokens (run insertion_order False [[0, 1, 2, 0, 1, 2, 0, 1, 2]] 1 2 MODE_ALL) =
       [[0, 1], [0, 1, 2], [0, 1, 2, 0], [0, 1, 2, 0, 1], [0, 1, 2, 0, 1, 2],
        [0, 1, 2, 0, 1, 2, 0], [0, 1, 2, 0, 1, 2, 0, 1],
        [1, 2], [1, 2, 0], [1, 2, 0, 1], [1, 2, 0, 1, 2], [1, 2, 0, 1, 2, 0],
        [1, 2, 0, 1, 2, 0, 1],
        [2, 0], [2, 0, 1], [2, 0, 1, 2], [2, 0, 1, 2, 0], [2, 0, 1, 2, 0, 1]]"
  by code_simp

section \<open>Properties of the greedy engine\<close>

subsection \<open>The choice of the next token\<close>

definition eligible :: "int \<Rightarrow> token \<times> occurrence list \<Rightarrow> bool" where
  "eligible min_docs e \<longleftrightarrow> size_t_of_int min_docs \<le> distinct_docs (snd e)"

lemma fold_best_step_last:
  assumes "fold (best_step min_docs) entries (bw, ms, bo) = (w, s, os)"
  shows "(if \<exists>e \<in> set entries. eligible min_docs e \<and> ms \<le> distinct_docs (snd e)
          then \<exists>pre post. entries = pre @ (w, os) # post \<and> s = distinct_docs os
                 \<and> eligible min_docs (w, os) \<and> ms \<le> s
                 \<and> (\<forall>e \<in> set pre. eligible min_docs e \<longrightarrow> distinct_docs (snd e) \<le> s)
                 \<and> (\<forall>e \<in> set post. eligible min_docs e \<longrightarrow> distinct_docs (snd e) < s)
          else (w, s, os) = (bw, ms, bo))"
  using assms
proof (induction entries arbitrary: w s os rule: rev_induct)
  case Nil
  then show ?case by simp
next
  case (snoc e es)
  obtain w0 s0 os0 where f: "fold (best_step min_docs) es (bw, ms, bo) = (w0, s0, os0)"
    by (cases "fold (best_step min_docs) es (bw, ms, bo)") auto
  note IH = snoc.IH [OF f]
  obtain word eos where e: "e = (word, eos)" by (cases e)
  have res: "(w, s, os) = best_step min_docs e (w0, s0, os0)"
    using snoc.prems f by simp
  have bound: "ms \<le> s0 \<and> (\<forall>e' \<in> set es. eligible min_docs e' \<longrightarrow> distinct_docs (snd e') \<le> s0)"
  proof (cases "\<exists>e' \<in> set es. eligible min_docs e' \<and> ms \<le> distinct_docs (snd e')")
    case True
    with IH obtain pre post where pp: "es = pre @ (w0, os0) # post" "s0 = distinct_docs os0"
         "ms \<le> s0"
         "\<forall>e \<in> set pre. eligible min_docs e \<longrightarrow> distinct_docs (snd e) \<le> s0"
         "\<forall>e \<in> set post. eligible min_docs e \<longrightarrow> distinct_docs (snd e) < s0"
      by auto
    have "distinct_docs (snd e') \<le> s0" if "e' \<in> set es" "eligible min_docs e'" for e'
    proof -
      from that(1) pp(1) consider "e' \<in> set pre" | "e' = (w0, os0)" | "e' \<in> set post" by auto
      then show ?thesis
        using pp(2,4,5) that(2) by cases (auto intro: less_imp_le)
    qed
    with pp(3) show ?thesis by blast
  next
    case False
    with IH have "(w0, s0, os0) = (bw, ms, bo)" by simp
    with False show ?thesis by (auto simp: not_le intro: less_imp_le)
  qed
  show ?case
  proof (cases "eligible min_docs e \<and> s0 \<le> distinct_docs eos")
    case True
    then have r: "w = word" "s = distinct_docs eos" "os = eos"
      using res by (auto simp: best_step_def e eligible_def)
    have "\<exists>e' \<in> set (es @ [e]). eligible min_docs e' \<and> ms \<le> distinct_docs (snd e')"
      using True bound by (auto simp: e)
    moreover have "es @ [e] = es @ (w, os) # [] \<and> s = distinct_docs os
                 \<and> eligible min_docs (w, os) \<and> ms \<le> s
                 \<and> (\<forall>e \<in> set es. eligible min_docs e \<longrightarrow> distinct_docs (snd e) \<le> s)
                 \<and> (\<forall>e \<in> set []. eligible min_docs e \<longrightarrow> distinct_docs (snd e) < s)"
      using True bound r e by auto
    then have "\<exists>pre post. es @ [e] = pre @ (w, os) # post \<and> s = distinct_docs os
                 \<and> eligible min_docs (w, os) \<and> ms \<le> s
                 \<and> (\<forall>e \<in> set pre. eligible min_docs e \<longrightarrow> distinct_docs (snd e) \<le> s)
                 \<and> (\<forall>e \<in> set post. eligible min_docs e \<longrightarrow> distinct_docs (snd e) < s)"
      by blast
    ultimately show ?thesis by (simp only: if_True)
  next
    case False
    then have r: "(w, s, os) = (w0, s0, os0)"
      using res by (auto simp: best_step_def e eligible_def)
    show ?thesis
    proof (cases "\<exists>e' \<in> set es. eligible min_docs e' \<and> ms \<le> distinct_docs (snd e')")
      case True
      with IH obtain pre post where pp: "es = pre @ (w0, os0) # post" "s0 = distinct_docs os0"
         "eligible min_docs (w0, os0)" "ms \<le> s0"
         "\<forall>e \<in> set pre. eligible min_docs e \<longrightarrow> distinct_docs (snd e) \<le> s0"
         "\<forall>e \<in> set post. eligible min_docs e \<longrightarrow> distinct_docs (snd e) < s0"
        by auto
      have "es @ [e] = pre @ (w0, os0) # (post @ [e])" using pp(1) by simp
      moreover have "\<forall>e' \<in> set (post @ [e]). eligible min_docs e' \<longrightarrow> distinct_docs (snd e') < s0"
        using pp(6) False by (auto simp: e)
      moreover have "\<exists>e' \<in> set (es @ [e]). eligible min_docs e' \<and> ms \<le> distinct_docs (snd e')"
        using True by auto
      ultimately show ?thesis using pp r by (simp only: if_True) blast
    next
      case F2: False
      then have i: "(w0, s0, os0) = (bw, ms, bo)" using IH by simp
      have "\<not> (eligible min_docs e \<and> ms \<le> distinct_docs (snd e))"
        using False i by (simp add: e)
      with F2 have "\<not> (\<exists>e' \<in> set (es @ [e]). eligible min_docs e' \<and> ms \<le> distinct_docs (snd e'))"
        by simp
      then show ?thesis using r i by (simp only: if_False)
    qed
  qed
qed

text \<open>
  Claim C5, as stated: among the candidate next tokens the one with the largest distinct-doc
  support is chosen, ties going to the token first encountered. The selection loop replaces
  its choice whenever a token's support is at least the best so far, so a later token of
  equal support wins. In the first document token 5 follows the phrase, in the second
  token 7; both have support 1. When the map of next tokens is visited in the order 5, 7
  (insertion order), 7 is chosen; when it is visited in the order 7, 5, token 5 is chosen:
  the tie goes to the token visited last, whichever was met first.
\<close>

theorem choose_best_tie_counterexample:
  "umap_iter (umap_order insertion_order)
     (next_word_occs [[0, 5], [0, 7]]
        \<lparr>tokens = [0], support = 2, occs = [\<lparr>doc_id = 0, pos = 0\<rparr>, \<lparr>doc_id = 1, pos = 0\<rparr>]\<rparr>) =
     [(5, [\<lparr>doc_id = 0, pos = 0\<rparr>]), (7, [\<lparr>doc_id = 1, pos = 0\<rparr>])]
   \<and> choose_best 1
       (umap_iter (umap_order insertion_order)
          (next_word_occs [[0, 5], [0, 7]]
             \<lparr>tokens = [0], support = 2, occs = [\<lparr>doc_id = 0, pos = 0\<rparr>, \<lparr>doc_id = 1, pos = 0\<rparr>]\<rparr>)) =
       (7, 1, [\<lparr>doc_id = 1, pos = 0\<rparr>])
   \<and> choose_best 1
       (umap_iter (umap_order reverse_order)
          (next_word_occs [[0, 5], [0, 7]]
             \<lparr>tokens = [0], support = 2, occs = [\<lparr>doc_id = 0, pos = 0\<rparr>, \<lparr>doc_id = 1, pos = 0\<rparr>]\<rparr>)) =
       (5, 1, [\<lparr>doc_id = 0, pos = 0\<rparr>])"
  by code_simp

text \<open>
  Claim C5, amended: when some candidate next token has distinct-doc support at least
  \<open>min_docs\<close>, the token chosen has the largest distinct-doc support of all candidates,
  and among the tokens that tie for it the one the iteration over the map of next tokens
  visits last is chosen; when no candidate reaches \<open>min_docs\<close> none is chosen
  (\<open>max_support\<close> stays 0).
\<close>

theorem choose_best_last_maximal:
  assumes "choose_best min_docs entries = (w, s, os)"
  shows "(if \<exists>e \<in> set entries. size_t_of_int min_docs \<le> distinct_docs (snd e)
          then \<exists>pre post. entries = pre @ (w, os) # post \<and> s = distinct_docs os
                 \<and> size_t_of_int min_docs \<le> s
                 \<and> (\<forall>e \<in> set pre. distinct_docs (snd e) \<le> s)
                 \<and> (\<forall>e \<in> set post. distinct_docs (snd e) < s)
          else (w, s, os) = (0, 0, []))"
proof (cases "\<exists>e \<in> set entries. size_t_of_int min_docs \<le> distinct_docs (snd e)")
  case False
  with fold_best_step_last [OF assms [unfolded choose_best_def]] show ?thesis
    by (auto simp: eligible_def)
next
  case True
  with fold_best_step_last [OF assms [unfolded choose_best_def]]
  obtain pre post where pp: "entries = pre @ (w, os) # post" "s = distinct_docs os"
         "eligible min_docs (w, os)"
         "\<forall>e \<in> set pre. eligible min_docs e \<longrightarrow> distinct_docs (snd e) \<le> s"
         "\<forall>e \<in> set post. eligible min_docs e \<longrightarrow> distinct_docs (snd e) < s"
    by (auto simp: eligible_def)
  have "distinct_docs (snd e) \<le> s" if "e \<in> set pre" for e
    using pp(2,3,4) that by (cases "eligible min_docs e") (auto simp: eligible_def)
  moreover have "distinct_docs (snd e) < s" if "e \<in> set post" for e
    using pp(2,3,5) that by (cases "eligible min_docs e") (auto simp: eligible_def)
  ultimately show ?thesis using True pp by (simp only: if_True eligible_def snd_conv) blast
qed

theorem choose_best_last_maximal_witness:
  "choose_best 1 [(5, [\<lparr>doc_id = 0, pos = 0\<rparr>]), (7, [\<lparr>doc_id = 1, pos = 0\<rparr>])] =
     (7, 1, [\<lparr>doc_id = 1, pos = 0\<rparr>])
   \<and> (\<exists>pre post. [(5::nat, [\<lparr>doc_id = 0, pos = 0\<rparr>]), (7, [\<lparr>doc_id = 1, pos = 0\<rparr>])] =
          pre @ (7, [\<lparr>doc_id = 1, pos = 0\<rparr>]) # post
        \<and> (\<forall>e \<in> set pre. distinct_docs (snd e) \<le> 1)
        \<and> (\<forall>e \<in> set post. distinct_docs (snd e) < 1))"
proof -
  have h: "choose_best 1 [(5, [\<lparr>doc_id = 0, pos = 0\<rparr>]), (7, [\<lparr>doc_id = 1, pos = 0\<rparr>])] =
     (7, 1, [\<lparr>doc_id = 1, pos = 0\<rparr>])"
    by code_simp
  have c: "\<exists>e \<in> set [(5::nat, [\<lparr>doc_id = 0, pos = 0\<rparr>]), (7, [\<lparr>doc_id = 1, pos = 0\<rparr>])].
             size_t_of_int 1 \<le> distinct_docs (snd e)"
    by code_simp
  from choose_best_last_maximal [OF h] c
  have "\<exists>pre post. [(5::nat, [\<lparr>doc_id = 0, pos = 0\<rparr>]), (7, [\<lparr>doc_id = 1, pos = 0\<rparr>])] =
          pre @ (7, [\<lparr>doc_id = 1, pos = 0\<rparr>]) # post
        \<and> (1::nat) = distinct_docs [\<lparr>doc_id = 1, pos = 0\<rparr>] \<and> size_t_of_int 1 \<le> (1::nat)
        \<and> (\<forall>e \<in> set pre. distinct_docs (snd e) \<le> 1)
        \<and> (\<forall>e \<in> set post. distinct_docs (snd e) < 1)"
    by (simp only: if_True)
  then show ?thesis using h by blast
qed


subsection \<open>Invariants of seeds, extension and the candidate loop\<close>

text \<open>
  \<open>matches_at docs toks oc\<close>: the occurrence lies inside its document and the document
  reads \<open>toks\<close> from the occurrence's position on. \<open>phrase_ok\<close> adds that the support
  field is the number of distinct documents of the occurrences and reaches the threshold.
\<close>

definition matches_at :: "corpus \<Rightarrow> token list \<Rightarrow> occurrence \<Rightarrow> bool" where
  "matches_at docs toks oc \<longleftrightarrow>
     doc_id oc < length docs \<and>
     take (length toks) (drop (pos oc) (docs ! doc_id oc)) = toks \<and>
     pos oc + length toks \<le> length (docs ! doc_id oc)"

definition phrase_ok :: "corpus \<Rightarrow> int \<Rightarrow> occurrence phrase \<Rightarrow> bool" where
  "phrase_ok docs min_docs ph \<longleftrightarrow>
     list_all (matches_at docs (tokens ph)) (occs ph) \<and>
     support ph = distinct_docs (occs ph) \<and>
     size_t_of_int min_docs \<le> support ph"

lemma matches_at_nth:
  assumes "matches_at docs toks oc"
  shows "pos oc + length toks \<le> length (docs ! doc_id oc) \<and>
         (\<forall>i < length toks. docs ! doc_id oc ! (pos oc + i) = toks ! i)"
proof -
  have t: "take (length toks) (drop (pos oc) (docs ! doc_id oc)) = toks"
    and l: "pos oc + length toks \<le> length (docs ! doc_id oc)"
    using assms by (auto simp: matches_at_def)
  have "docs ! doc_id oc ! (pos oc + i) = toks ! i" if "i < length toks" for i
  proof -
    have "toks ! i = take (length toks) (drop (pos oc) (docs ! doc_id oc)) ! i"
      by (simp only: t)
    also have "\<dots> = docs ! doc_id oc ! (pos oc + i)"
      using that l by simp
    finally show ?thesis by simp
  qed
  with l show ?thesis by blast
qed

lemma ngram_at_take:
  assumes "p + nat ngrams \<le> length doc"
  shows "take (length (ngram_at doc p ngrams)) (drop p doc) = ngram_at doc p ngrams"
  using assms by (auto simp: ngram_at_def intro!: nth_equalityI)

lemma doc_seeds_match:
  assumes "(toks, oc) \<in> set (doc_seeds docs ngrams d)" "d < length docs"
  shows "matches_at docs toks oc"
proof -
  from assms(1) obtain p where p: "toks = ngram_at (docs ! d) p ngrams" "oc = \<lparr>doc_id = d, pos = p\<rparr>"
      "p \<le> length (docs ! d) - size_t_of_int ngrams" "size_t_of_int ngrams \<le> length (docs ! d)"
    by (auto simp: doc_seeds_def split: if_splits)
  have "nat ngrams \<le> size_t_of_int ngrams" by (simp add: size_t_of_int_def)
  with p(3,4) have le: "p + nat ngrams \<le> length (docs ! d)" by linarith
  have "length toks = nat ngrams" by (simp add: p(1) ngram_at_def)
  with ngram_at_take [OF le] le assms(2) show ?thesis
    by (simp add: matches_at_def p)
qed

lemma gather_seeds_bucket:
  assumes "map_of (gather_seeds docs ngrams) toks = Some os"
  shows "os = map snd (filter (\<lambda>x. fst x = toks) (concat (map (doc_seeds docs ngrams) [0..<length docs])))"
proof -
  let ?xs = "concat (map (doc_seeds docs ngrams) [0..<length docs])"
  have "(\<lambda>(ngram, oc). umap_push_back ngram oc) =
        (\<lambda>x m. if (\<lambda>_. True) x then umap_push_back (fst x) (snd x) m else m)"
    by (simp add: fun_eq_iff)
  then have "gather_seeds docs ngrams =
      fold (\<lambda>x m. if (\<lambda>_. True) x then umap_push_back (fst x) (snd x) m else m) ?xs []"
    unfolding gather_seeds_def by (rule arg_cong [where f = "\<lambda>f. fold f ?xs []"])
  with map_of_fold_push_back [of "\<lambda>_. True" fst snd ?xs toks]
  have "map_of (gather_seeds docs ngrams) toks =
     (if bucket (\<lambda>_. True) fst snd ?xs toks = [] then None
      else Some (bucket (\<lambda>_. True) fst snd ?xs toks))"
    by (simp only:)
  with assms show ?thesis by (simp add: bucket_def split: if_splits)
qed

lemma gather_seeds_match:
  assumes "map_of (gather_seeds docs ngrams) toks = Some os" "oc \<in> set os"
  shows "matches_at docs toks oc"
proof -
  from gather_seeds_bucket [OF assms(1)] assms(2)
  obtain d where "d < length docs" "(toks, oc) \<in> set (doc_seeds docs ngrams d)"
    by auto
  then show ?thesis by (auto intro: doc_seeds_match)
qed

lemma seed_candidates_ok:
  assumes "ph \<in> set (seed_candidates ho min_docs (gather_seeds docs ngrams))"
  shows "phrase_ok docs min_docs ph"
proof -
  from assms obtain toks os where e: "(toks, os) \<in> set (umap_iter (useed_order ho) (gather_seeds docs ngrams))"
      "size_t_of_int min_docs \<le> distinct_docs os"
      "ph = \<lparr>tokens = toks, support = distinct_docs os, occs = os\<rparr>"
    by (auto simp: seed_candidates_def List.map_filter_def split: if_splits)
  from gather_seeds_match [OF umap_iter_map_of [OF e(1)]] e(2,3)
  show ?thesis by (simp add: phrase_ok_def list_all_iff)
qed

lemma set_insert_sorted: "set (insert_sorted cmp x xs) = insert x (set xs)"
  by (induction xs) auto

lemma set_std_sort: "set (std_sort cmp xs) = set xs"
  by (induction xs) (auto simp: std_sort_def set_insert_sorted)

lemma gme_candidates_ok:
  "ph \<in> set (gme_candidates ho docs min_docs ngrams) \<Longrightarrow> phrase_ok docs min_docs ph"
  by (simp add: gme_candidates_def set_std_sort seed_candidates_ok)

lemma matches_at_snoc:
  assumes "matches_at docs toks oc" "follows docs (length toks) w oc"
  shows "matches_at docs (toks @ [w]) oc"
proof -
  have l: "pos oc + length toks < length (docs ! doc_id oc)"
    and w: "docs ! doc_id oc ! (pos oc + length toks) = w"
    using assms(2) by (auto simp: follows_def)
  have t: "take (length toks) (drop (pos oc) (docs ! doc_id oc)) = toks"
    using assms(1) by (simp add: matches_at_def)
  have "take (Suc (length toks)) (drop (pos oc) (docs ! doc_id oc)) =
        take (length toks) (drop (pos oc) (docs ! doc_id oc)) @ [drop (pos oc) (docs ! doc_id oc) ! length toks]"
    using l by (intro take_Suc_conv_app_nth) simp
  also have "\<dots> = toks @ [w]" using t w l by simp
  finally show ?thesis using assms(1) l by (simp add: matches_at_def)
qed

lemma expand_ok:
  "phrase_ok docs min_docs cand \<Longrightarrow> phrase_ok docs min_docs (expand ho docs min_docs cand)"
proof (induction ho docs min_docs cand rule: expand.induct)
  case (1 ho docs min_docs cand)
  obtain best_word max_support best_next_occs where
    cb: "choose_best min_docs (umap_iter (umap_order ho) (next_word_occs docs cand))
           = (best_word, max_support, best_next_occs)"
    by (cases "choose_best min_docs (umap_iter (umap_order ho) (next_word_occs docs cand))") auto
  show ?case
  proof (cases "0 < max_support")
    case False
    with cb "1.prems" show ?thesis by (subst expand.simps) simp
  next
    case True
    let ?next = "\<lparr>tokens = tokens cand @ [best_word], support = max_support, occs = best_next_occs\<rparr>"
    from choose_best_cases [OF cb True]
    have mem: "(best_word, best_next_occs) \<in> set (umap_iter (umap_order ho) (next_word_occs docs cand))"
      and s: "max_support = distinct_docs best_next_occs" "size_t_of_int min_docs \<le> max_support"
      by auto
    have b: "best_next_occs = filter (follows docs (length (tokens cand)) best_word) (occs cand)"
      using next_word_occs_bucket [OF umap_iter_map_of [OF mem]] .
    have "list_all (matches_at docs (tokens cand @ [best_word])) best_next_occs"
      using "1.prems" unfolding b phrase_ok_def list_all_iff
      by (auto intro: matches_at_snoc)
    with s have "phrase_ok docs min_docs ?next" by (simp add: phrase_ok_def)
    from "1.IH" [OF cb [symmetric] refl True this] cb True
    show ?thesis by (subst expand.simps) simp
  qed
qed

lemma mine_loop_ok:
  assumes "mine_loop ho stop docs min_docs c_idx cands processed acc = Inr phrases"
    and "\<forall>c \<in> set cands. phrase_ok docs min_docs c"
    and "\<forall>ph \<in> set acc. phrase_ok docs min_docs ph"
  shows "\<forall>ph \<in> set phrases. phrase_ok docs min_docs ph"
  using assms
proof (induction cands arbitrary: c_idx processed acc)
  case Nil
  then show ?case by simp
next
  case (Cons cand rest)
  show ?case
  proof (cases "stop c_idx")
    case True
    with Cons.prems show ?thesis by simp
  next
    case False
    show ?thesis
    proof (cases "all_starts_processed processed (occs cand)")
      case (Inl e)
      with False Cons.prems show ?thesis by simp
    next
      case (Inr skip)
      show ?thesis
      proof (cases skip)
        case True
        with False Inr Cons.prems(1)
        have "mine_loop ho stop docs min_docs (Suc c_idx) rest processed acc = Inr phrases" by simp
        moreover have "\<forall>c \<in> set rest. phrase_ok docs min_docs c"
          using Cons.prems(2) by simp
        ultimately show ?thesis using Cons.prems(3) by (rule Cons.IH)
      next
        case F: False
        with False Inr Cons.prems(1)
        have "mine_loop ho stop docs min_docs (Suc c_idx) rest
                (mark_positions (expand ho docs min_docs cand) processed)
                (acc @ [expand ho docs min_docs cand]) = Inr phrases" by simp
        moreover have "\<forall>c \<in> set rest. phrase_ok docs min_docs c"
          using Cons.prems(2) by simp
        moreover have "phrase_ok docs min_docs (expand ho docs min_docs cand)"
          using Cons.prems(2) by (simp add: expand_ok)
        then have "\<forall>ph \<in> set (acc @ [expand ho docs min_docs cand]). phrase_ok docs min_docs ph"
          using Cons.prems(3) by simp
        ultimately show ?thesis by (rule Cons.IH)
      qed
    qed
  qed
qed

lemma gme_mine_ok:
  assumes "gme_mine ho stop docs min_docs ngrams = Inr phrases" "ph \<in> set phrases"
  shows "phrase_ok docs min_docs ph"
proof -
  have "\<forall>c \<in> set (gme_candidates ho docs min_docs ngrams). phrase_ok docs min_docs c"
    by (blast intro: gme_candidates_ok)
  moreover have "\<forall>ph \<in> set []. phrase_ok docs min_docs ph" by simp
  ultimately have "\<forall>ph \<in> set phrases. phrase_ok docs min_docs ph"
    by (rule mine_loop_ok [OF assms(1) [unfolded gme_mine_def]])
  with assms(2) show ?thesis by blast
qed


subsection \<open>The candidate loop returns\<close>

text \<open>
  The only read the source does not guard is \<open>processed[o.doc_id][o.pos]\<close> in the freshness
  check. With a seed length of at least one every seed occurrence starts inside its
  document, so the read is in range and the loop returns its phrases; with \<open>ngrams = 0\<close>
  the empty seed also occurs at the end of every document, where the read is out of range.
\<close>

definition starts_inside :: "corpus \<Rightarrow> occurrence phrase \<Rightarrow> bool" where
  "starts_inside docs ph \<longleftrightarrow>
     list_all (\<lambda>oc. doc_id oc < length docs \<and> pos oc < length (docs ! doc_id oc)) (occs ph)"

lemma all_starts_processed_returns:
  assumes "list_all (\<lambda>oc. doc_id oc < length processed \<and> pos oc < length (processed ! doc_id oc)) os"
  shows "\<exists>skip. all_starts_processed processed os = Inr skip"
  using assms by (induction os) auto

lemma mark_occurrence_shape: "map length (mark_occurrence n oc processed) = map length processed"
proof -
  have "map length (fold (\<lambda>i pr. if pos oc + i < length (pr ! doc_id oc)
                   then pr[doc_id oc := (pr ! doc_id oc)[pos oc + i := True]] else pr) ns processed)
        = map length processed" for ns
  proof (induction ns arbitrary: processed)
    case Nil
    show ?case by simp
  next
    case (Cons i ns)
    have "map length (processed[doc_id oc := (processed ! doc_id oc)[pos oc + i := True]])
          = map length processed"
      by (cases "doc_id oc < length processed") (simp_all add: map_update list_update_same_conv list_update_beyond)
    with Cons show ?case by simp
  qed
  then show ?thesis by (simp add: mark_occurrence_def)
qed

lemma mark_positions_shape: "map length (mark_positions cand processed) = map length processed"
proof -
  have "map length (fold (mark_occurrence n) os processed) = map length processed" for n os
    by (induction os arbitrary: processed) (simp_all add: mark_occurrence_shape)
  then show ?thesis by (simp add: mark_positions_def)
qed

lemma mine_loop_returns:
  assumes "map length processed = map length docs"
    and "\<forall>c \<in> set cands. starts_inside docs c"
  shows "\<exists>phrases. mine_loop ho stop docs min_docs c_idx cands processed acc = Inr phrases"
  using assms
proof (induction cands arbitrary: c_idx processed acc)
  case Nil
  show ?case by simp
next
  case (Cons cand rest)
  have len: "length processed = length docs" "\<And>d. d < length docs \<Longrightarrow> length (processed ! d) = length (docs ! d)"
    using Cons.prems(1) by (auto dest: map_eq_imp_length_eq simp: list_eq_iff_nth_eq)
  have "starts_inside docs cand" using Cons.prems(2) by simp
  then have "list_all (\<lambda>oc. doc_id oc < length processed \<and> pos oc < length (processed ! doc_id oc)) (occs cand)"
    using len by (auto simp: starts_inside_def list_all_iff)
  then obtain skip where s: "all_starts_processed processed (occs cand) = Inr skip"
    using all_starts_processed_returns by blast
  have rest: "\<forall>c \<in> set rest. starts_inside docs c" using Cons.prems(2) by simp
  show ?case
  proof (cases "stop c_idx")
    case True
    then show ?thesis by simp
  next
    case False
    show ?thesis
    proof (cases skip)
      case True
      from Cons.IH [OF Cons.prems(1) rest, of "Suc c_idx" acc] False s True
      show ?thesis by simp
    next
      case F: False
      have "map length (mark_positions (expand ho docs min_docs cand) processed) = map length docs"
        using Cons.prems(1) by (simp add: mark_positions_shape)
      from Cons.IH [OF this rest, of "Suc c_idx" "acc @ [expand ho docs min_docs cand]"] False s F
      show ?thesis by simp
    qed
  qed
qed

lemma doc_seeds_length:
  "(toks, oc) \<in> set (doc_seeds docs ngrams d) \<Longrightarrow> length toks = nat ngrams"
  by (auto simp: doc_seeds_def ngram_at_def split: if_splits)

lemma gme_candidates_length:
  assumes "ph \<in> set (gme_candidates ho docs min_docs ngrams)"
  shows "occs ph = [] \<or> length (tokens ph) = nat ngrams"
proof -
  from assms obtain toks os where e: "(toks, os) \<in> set (umap_iter (useed_order ho) (gather_seeds docs ngrams))"
      "ph = \<lparr>tokens = toks, support = distinct_docs os, occs = os\<rparr>"
    by (auto simp: gme_candidates_def set_std_sort seed_candidates_def List.map_filter_def split: if_splits)
  show ?thesis
  proof (cases os)
    case Nil
    then show ?thesis by (simp add: e)
  next
    case (Cons oc os')
    have "oc \<in> set os" by (simp add: Cons)
    with gather_seeds_bucket [OF umap_iter_map_of [OF e(1)]]
    obtain d where "(toks, oc) \<in> set (doc_seeds docs ngrams d)"
      by auto
    then show ?thesis by (simp add: e doc_seeds_length)
  qed
qed

lemma gme_mine_returns:
  assumes "0 < ngrams"
  shows "\<exists>phrases. gme_mine ho stop docs min_docs ngrams = Inr phrases"
proof -
  have "starts_inside docs c" if c: "c \<in> set (gme_candidates ho docs min_docs ngrams)" for c
  proof -
    have ok: "phrase_ok docs min_docs c" using c by (rule gme_candidates_ok)
    have "doc_id oc < length docs \<and> pos oc < length (docs ! doc_id oc)" if oc: "oc \<in> set (occs c)" for oc
    proof -
      from ok oc have m: "matches_at docs (tokens c) oc" by (simp add: phrase_ok_def list_all_iff)
      from gme_candidates_length [OF c] oc have "length (tokens c) = nat ngrams" by auto
      with assms have "0 < length (tokens c)" by simp
      moreover from m have "doc_id oc < length docs"
        and "pos oc + length (tokens c) \<le> length (docs ! doc_id oc)"
        by (simp_all add: matches_at_def)
      ultimately show ?thesis by linarith
    qed
    then show ?thesis by (simp add: starts_inside_def list_all_iff)
  qed
  then have "\<forall>c \<in> set (gme_candidates ho docs min_docs ngrams). starts_inside docs c" by blast
  moreover have "map length (map (\<lambda>d. replicate (length d) False) docs) = map length docs"
    by (simp add: comp_def)
  ultimately show ?thesis
    unfolding gme_mine_def by (intro mine_loop_returns)
qed

lemma gme_support_distinct_docs:
  assumes "gme_mine ho stop docs min_docs ngrams = Inr phrases" "ph \<in> set phrases"
  shows "support ph = card (doc_id ` set (occs ph))"
  using gme_mine_ok [OF assms] by (simp add: phrase_ok_def distinct_docs_card)

subsection \<open>Contiguity of the occurrences\<close>

text \<open>
  Claim C7: every occurrence \<open>(d, p)\<close> carried by a phrase of the greedy engine satisfies
  \<open>p + |tokens| \<le> |Document[d]|\<close> and \<open>Document[d][p + i] = tokens[i]\<close> for all
  \<open>i < |tokens|\<close>, for the seed candidates (the \<open>L\<close>-grams that pass the threshold)
  and for the phrases emitted after the greedy extension. (By \<open>gme_mine_returns\<close> the
  engine does return its phrases whenever \<open>ngrams\<close> is positive.)
\<close>

theorem gme_contiguity:
  assumes "ph \<in> set (gme_candidates ho docs min_docs ngrams) \<or>
           (\<exists>phrases. gme_mine ho stop docs min_docs ngrams = Inr phrases \<and> ph \<in> set phrases)"
    and "oc \<in> set (occs ph)"
  shows "doc_id oc < length docs \<and>
         pos oc + length (tokens ph) \<le> length (docs ! doc_id oc) \<and>
         (\<forall>i < length (tokens ph). docs ! doc_id oc ! (pos oc + i) = tokens ph ! i)"
proof -
  from assms(1) have "phrase_ok docs min_docs ph"
    by (auto intro: gme_candidates_ok gme_mine_ok)
  with assms(2) have m: "matches_at docs (tokens ph) oc"
    by (simp add: phrase_ok_def list_all_iff)
  then have "doc_id oc < length docs" by (simp add: matches_at_def)
  with matches_at_nth [OF m] show ?thesis by simp
qed

theorem gme_contiguity_witness:
  "gme_mine insertion_order never_stop [[0, 1, 2, 3], [9, 0, 1, 2, 3, 8], [0, 1, 2, 3, 7]] 3 3 =
     Inr [\<lparr>tokens = [0, 1, 2, 3], support = 3,
           occs = [\<lparr>doc_id = 0, pos = 0\<rparr>, \<lparr>doc_id = 1, pos = 1\<rparr>, \<lparr>doc_id = 2, pos = 0\<rparr>]\<rparr>]
   \<and> 1 + length [0, 1, 2, 3 :: nat] \<le> length ([[0, 1, 2, 3], [9, 0, 1, 2, 3, 8], [0, 1, 2, 3, 7 :: nat]] ! 1)
   \<and> [[0, 1, 2, 3], [9, 0, 1, 2, 3, 8], [0, 1, 2, 3, 7 :: nat]] ! 1 ! (1 + 3) = [0, 1, 2, 3] ! 3"
proof -
  let ?docs = "[[0, 1, 2, 3], [9, 0, 1, 2, 3, 8], [0, 1, 2, 3, 7 :: nat]]"
  let ?ph = "\<lparr>tokens = [0, 1, 2, 3 :: nat], support = 3 :: nat,
           occs = [\<lparr>doc_id = 0, pos = 0\<rparr>, \<lparr>doc_id = 1, pos = 1\<rparr>, \<lparr>doc_id = 2, pos = 0\<rparr>]\<rparr>"
  have run: "gme_mine insertion_order never_stop ?docs 3 3 = Inr [?ph]"
    by code_simp
  then have a: "?ph \<in> set (gme_candidates insertion_order ?docs 3 3) \<or>
           (\<exists>phrases. gme_mine insertion_order never_stop ?docs 3 3 = Inr phrases \<and> ?ph \<in> set phrases)"
    by simp
  have b: "\<lparr>doc_id = 1, pos = 1\<rparr> \<in> set (occs ?ph)" by simp
  from gme_contiguity [OF a b] run show ?thesis by simp
qed

section \<open>The support floor\<close>

lemma mine_recursive_mem:
  "p \<in> set (mine_recursive ho stop docs min_docs min_length mode db prefix cs) \<longleftrightarrow>
     \<not> stop \<and>
     ((should_output min_docs min_length mode prefix cs (occ_delivery docs db)
         \<and> p = emit_phrase ho db prefix cs)
      \<or> (\<exists>(token, doc_ids) \<in> set (umap_iter (umap_order ho) (occ_delivery docs db)).
            min_docs \<le> length doc_ids \<and> next_db docs db token \<noteq> [] \<and>
            p \<in> set (mine_recursive ho stop docs min_docs min_length mode
                        (next_db docs db token) (prefix @ [token]) (length doc_ids))))"
  by (subst mine_recursive.simps) (auto split: if_splits)

lemma mine_recursive_floor:
  "p \<in> set (mine_recursive ho stop docs min_docs min_length mode db prefix cs) \<Longrightarrow>
     min_length \<le> length (tokens p) \<and>
     ((tokens p = prefix \<and> support p = cs) \<or>
      (length prefix < length (tokens p) \<and> min_docs \<le> support p))"
proof (induction ho stop docs min_docs min_length mode db prefix cs rule: mine_recursive.induct)
  case (1 ho stop docs min_docs min_length mode db prefix cs)
  from "1.prems" [unfolded mine_recursive_mem [of p ho stop docs min_docs min_length mode db prefix cs]]
  consider (own) "should_output min_docs min_length mode prefix cs (occ_delivery docs db)"
                 "p = emit_phrase ho db prefix cs"
    | (child) token doc_ids where "\<not> stop"
        "(token, doc_ids) \<in> set (umap_iter (umap_order ho) (occ_delivery docs db))"
        "min_docs \<le> length doc_ids" "next_db docs db token \<noteq> []"
        "p \<in> set (mine_recursive ho stop docs min_docs min_length mode
                        (next_db docs db token) (prefix @ [token]) (length doc_ids))"
    by auto
  then show ?case
  proof cases
    case own
    then show ?thesis by (simp add: should_output_def emit_phrase_def)
  next
    case child
    from "1.IH" [OF child(1,2) refl _ child(5)] child(3,4)
    show ?thesis by auto
  qed
qed

lemma run_floor:
  assumes "p \<in> set (run ho stop docs min_docs min_length mode)"
  shows "min_length \<le> length (tokens p) \<and> (tokens p = [] \<or> min_docs \<le> support p)"
  using mine_recursive_floor [OF assms [unfolded run_def]] by auto

lemma size_t_of_int_ge: "i \<le> int (size_t_of_int i)"
  by (simp add: size_t_of_int_def)

lemma uint32_of_int_ge: "i \<le> int (uint32_of_int i)"
  by (simp add: uint32_of_int_def)

text \<open>
  Claim C6, as stated: for any corpus, any \<open>min_docs\<close> and \<open>L\<close> and any mode, every
  emitted phrase has support at least \<open>min_docs\<close>. With \<open>L = 0\<close> the PrefixSpan engine
  emits the empty prefix at the root of the recursion, whose support is the number of
  non-empty documents and is never compared with \<open>min_docs\<close>: two documents,
  \<open>min_docs = 5\<close>, and the empty phrase is emitted with support 2.
\<close>

theorem support_floor_counterexample:
  "cps_mine insertion_order False [''row_0'', ''row_1''] [[0], [1]] 5 0 =
     [\<lparr>tokens = [], support = 2, occs = [0, 1]\<rparr>]"
  by code_simp

text \<open>
  Claim C6, amended: for any corpus, any \<open>min_docs\<close>, any \<open>L\<close> and any mode, every phrase
  emitted by the greedy engine and every phrase with at least one token emitted by the
  PrefixSpan engine (every phrase it emits when \<open>L \<ge> 1\<close>) has support at least
  \<open>min_docs\<close>.
\<close>

theorem support_floor:
  "(gme_mine ho stop docs min_docs ngrams = Inr phrases \<and> ph \<in> set phrases
      \<longrightarrow> min_docs \<le> int (support ph))
   \<and> (p \<in> set (run ho' stop' docs md min_length mode) \<and> (0 < min_length \<or> tokens p \<noteq> [])
      \<longrightarrow> md \<le> support p)
   \<and> (p \<in> set (cps_mine ho' stop' file_paths docs min_docs ngrams)
        \<and> (0 < uint32_of_int ngrams \<or> tokens p \<noteq> [])
      \<longrightarrow> min_docs \<le> int (support p))"
proof (intro conjI impI)
  assume "gme_mine ho stop docs min_docs ngrams = Inr phrases \<and> ph \<in> set phrases"
  then have "phrase_ok docs min_docs ph" by (auto intro: gme_mine_ok)
  then have "size_t_of_int min_docs \<le> support ph" by (simp add: phrase_ok_def)
  with size_t_of_int_ge [of min_docs] show "min_docs \<le> int (support ph)" by linarith
next
  assume a: "p \<in> set (run ho' stop' docs md min_length mode) \<and> (0 < min_length \<or> tokens p \<noteq> [])"
  with run_floor [of p ho' stop' docs md min_length mode] show "md \<le> support p" by auto
next
  assume a: "p \<in> set (cps_mine ho' stop' file_paths docs min_docs ngrams)
        \<and> (0 < uint32_of_int ngrams \<or> tokens p \<noteq> [])"
  then have r: "p \<in> set (run ho' stop' docs (uint32_of_int min_docs) (uint32_of_int ngrams) MODE_CLOSED)"
    by (auto simp: cps_mine_def split: if_splits)
  from a run_floor [OF r] have "uint32_of_int min_docs \<le> support p" by auto
  with uint32_of_int_ge [of min_docs] show "min_docs \<le> int (support p)" by linarith
qed

theorem support_floor_witness:
  "gme_mine insertion_order never_stop [[0, 1], [0, 1], [0, 2]] 2 2 =
     Inr [\<lparr>tokens = [0, 1], support = 2, occs = [\<lparr>doc_id = 0, pos = 0\<rparr>, \<lparr>doc_id = 1, pos = 0\<rparr>]\<rparr>]
   \<and> run insertion_order False [[0, 1, 2], [0, 1, 3], [0, 4]] 2 2 MODE_ALL =
       [\<lparr>tokens = [0, 1], support = 2, occs = [0, 1]\<rparr>]
   \<and> cps_mine insertion_order False [''row_0'', ''row_1'', ''row_2''] [[0, 1, 2], [0, 1, 3], [0, 4]] 2 2 =
       [\<lparr>tokens = [0, 1], support = 2, occs = [0, 1]\<rparr>]
   \<and> (2 :: int) \<le> int (support \<lparr>tokens = [0, 1], support = 2, occs = [\<lparr>doc_id = 0, pos = 0\<rparr>, \<lparr>doc_id = 1, pos = 0\<rparr>]\<rparr>)
   \<and> (2 :: nat) \<le> support \<lparr>tokens = [0, 1], support = 2, occs = [0, 1 :: nat]\<rparr>
   \<and> (2 :: int) \<le> int (support \<lparr>tokens = [0, 1], support = 2, occs = [0, 1 :: nat]\<rparr>)"
proof -
  let ?g = "\<lparr>tokens = [0, 1 :: nat], support = 2 :: nat, occs = [\<lparr>doc_id = 0, pos = 0\<rparr>, \<lparr>doc_id = 1, pos = 0\<rparr>]\<rparr>"
  let ?c = "\<lparr>tokens = [0, 1 :: nat], support = 2 :: nat, occs = [0, 1 :: nat]\<rparr>"
  have g: "gme_mine insertion_order never_stop [[0, 1], [0, 1], [0, 2]] 2 2 = Inr [?g]"
    by code_simp
  have r: "run insertion_order False [[0, 1, 2], [0, 1, 3], [0, 4]] 2 2 MODE_ALL = [?c]"
    by code_simp
  have m: "cps_mine insertion_order False [''row_0'', ''row_1'', ''row_2''] [[0, 1, 2], [0, 1, 3], [0, 4]] 2 2 = [?c]"
    by code_simp
  from support_floor [where ho = insertion_order and stop = never_stop
      and docs = "[[0, 1], [0, 1], [0, 2]]" and min_docs = 2 and ngrams = 2
      and phrases = "[?g]" and ph = ?g]
    g have "(2 :: int) \<le> int (support ?g)" by simp
  moreover
  from support_floor [where docs = "[[0, 1, 2], [0, 1, 3], [0, 4]]" and p = ?c
      and ho' = insertion_order and stop' = False and md = 2 and min_length = 2 and mode = MODE_ALL]
    r have "(2 :: nat) \<le> support ?c" by simp
  moreover
  from support_floor [where docs = "[[0, 1, 2], [0, 1, 3], [0, 4]]" and p = ?c
      and ho' = insertion_order and stop' = False
      and file_paths = "[''row_0'', ''row_1'', ''row_2'']" and min_docs = 2 and ngrams = 2]
    m have "(2 :: int) \<le> int (support ?c)" by simp
  ultimately show ?thesis using g r m by simp
qed


section \<open>The result sink\<close>

text \<open>
  Both versions of \<open>save_to_csv\<close>, as the text they write. \<open>id_to_word\<close> and
  \<open>file_paths\<close> are the miner's tables; the greedy version indexes them unchecked, the
  PrefixSpan version skips an id outside the table.
\<close>

function show_nat :: "nat \<Rightarrow> string" where
  "show_nat n = (if n < 10 then [char_of (48 + n)] else show_nat (n div 10) @ [char_of (48 + n mod 10)])"
  by pat_completeness auto
termination
  by (relation "measure (\<lambda>n. n)") auto

declare show_nat.simps [simp del]

definition csv_header :: string where
  \<open>csv_header = ''phrase,freq,length,example_files\<newline>''\<close>

definition gme_phrase_text :: "string list \<Rightarrow> token list \<Rightarrow> string" where
  "gme_phrase_text id_to_word toks =
     concat (map (\<lambda>i. id_to_word ! (toks ! i) @ (if i = length toks - 1 then [] else '' ''))
                 [0..<length toks])"

text \<open>The loop over the document ids of a phrase; \<open>cnt\<close> is the local \<open>count\<close>.\<close>

fun gme_example_files :: "string list \<Rightarrow> nat \<Rightarrow> nat list \<Rightarrow> string" where
  "gme_example_files file_paths cnt [] = []"
| "gme_example_files file_paths cnt (d # ids) =
     file_paths ! d @ (if cnt < 1 then ''|'' else [])
     @ (if Suc cnt > 1 then [] else gme_example_files file_paths (Suc cnt) ids)"

definition occurrence_docs :: "occurrence list \<Rightarrow> nat list" where
  "occurrence_docs os = fold (\<lambda>oc s. uset_insert (doc_id oc) s) os []"

definition gme_csv_row :: "hash_order \<Rightarrow> string list \<Rightarrow> string list \<Rightarrow> occurrence phrase \<Rightarrow> string" where
  \<open>gme_csv_row ho id_to_word file_paths p =
     ''"'' @ gme_phrase_text id_to_word (tokens p)
     @ ''",'' @ show_nat (support p) @ '','' @ show_nat (length (tokens p)) @ '',"''
     @ gme_example_files file_paths 0 (uset_iter (uset_order ho) (occurrence_docs (occs p)))
     @ ''"\<newline>''\<close>

definition gme_save_to_csv ::
  "hash_order \<Rightarrow> string list \<Rightarrow> string list \<Rightarrow> occurrence phrase list \<Rightarrow> string" where
  "gme_save_to_csv ho id_to_word file_paths res =
     csv_header @ concat (map (gme_csv_row ho id_to_word file_paths) res)"

definition cps_before :: "nat phrase \<Rightarrow> nat phrase \<Rightarrow> bool" where
  "cps_before a b =
     (if support a \<noteq> support b then support b < support a
      else length (tokens b) < length (tokens a))"

definition cps_csv_order :: "nat phrase list \<Rightarrow> nat phrase list" where
  "cps_csv_order res = std_sort cps_before res"

definition cps_phrase_text :: "string list \<Rightarrow> token list \<Rightarrow> string" where
  "cps_phrase_text id_to_word toks =
     concat (map (\<lambda>i. if toks ! i < length id_to_word
                        then id_to_word ! (toks ! i) @ (if i = length toks - 1 then [] else '' '')
                        else [])
                 [0..<length toks])"

fun cps_example_files :: "string list \<Rightarrow> nat \<Rightarrow> nat \<Rightarrow> nat list \<Rightarrow> string" where
  "cps_example_files file_paths n cnt [] = []"
| "cps_example_files file_paths n cnt (d_id # ids) =
     (if d_id < length file_paths
      then file_paths ! d_id
           @ (if Suc cnt \<ge> 2 then (if n > 2 then ''...'' else [])
              else (if Suc cnt < n then ''|'' else [])
                   @ cps_example_files file_paths n (Suc cnt) ids)
      else cps_example_files file_paths n cnt ids)"

definition cps_unique_docs :: "nat list \<Rightarrow> nat list" where
  "cps_unique_docs ds = fold uset_insert ds []"

definition cps_csv_row :: "hash_order \<Rightarrow> string list \<Rightarrow> string list \<Rightarrow> nat phrase \<Rightarrow> string" where
  \<open>cps_csv_row ho id_to_word file_paths p =
     ''"'' @ cps_phrase_text id_to_word (tokens p)
     @ ''",'' @ show_nat (support p) @ '','' @ show_nat (length (tokens p)) @ '',"''
     @ cps_example_files file_paths (length (cps_unique_docs (occs p))) 0
         (uset_iter (uset_order ho) (cps_unique_docs (occs p)))
     @ ''"\<newline>''\<close>

definition cps_save_to_csv ::
  "hash_order \<Rightarrow> string list \<Rightarrow> string list \<Rightarrow> nat phrase list \<Rightarrow> string" where
  "cps_save_to_csv ho id_to_word file_paths res =
     csv_header @ concat (map (cps_csv_row ho id_to_word file_paths) (cps_csv_order res))"

subsection \<open>Order of the rows\<close>

definition sup_len_desc :: "'o phrase \<Rightarrow> 'o phrase \<Rightarrow> bool" where
  "sup_len_desc a b \<longleftrightarrow>
     support b < support a \<or> (support a = support b \<and> length (tokens b) \<le> length (tokens a))"

lemma sup_len_desc_trans: "sup_len_desc a b \<Longrightarrow> sup_len_desc b c \<Longrightarrow> sup_len_desc a c"
  by (auto simp: sup_len_desc_def)

lemma cps_before_desc: "cps_before a b \<Longrightarrow> sup_len_desc a b"
  by (auto simp: cps_before_def sup_len_desc_def split: if_splits)

lemma not_cps_before_desc: "\<not> cps_before a b \<Longrightarrow> sup_len_desc b a"
  by (auto simp: cps_before_def sup_len_desc_def split: if_splits)

lemma sorted_insert_sorted:
  "sorted_wrt sup_len_desc xs \<Longrightarrow> sorted_wrt sup_len_desc (insert_sorted cps_before x xs)"
proof (induction xs)
  case Nil
  then show ?case by simp
next
  case (Cons y ys)
  show ?case
  proof (cases "cps_before y x")
    case True
    then have "sup_len_desc y x" by (rule cps_before_desc)
    with Cons True show ?thesis
      by (auto simp: set_insert_sorted)
  next
    case False
    then have "sup_len_desc x y" by (rule not_cps_before_desc)
    with Cons.prems False show ?thesis
      by (auto intro: sup_len_desc_trans)
  qed
qed

lemma sorted_cps_csv_order: "sorted_wrt sup_len_desc (cps_csv_order res)"
  unfolding cps_csv_order_def std_sort_def
  by (induction res) (auto intro: sorted_insert_sorted)

lemma length_insert_sorted: "length (insert_sorted cmp x xs) = Suc (length xs)"
  by (induction xs) auto

lemma length_std_sort: "length (std_sort cmp xs) = length xs"
  by (induction xs) (auto simp: std_sort_def length_insert_sorted)

lemma mset_insert_sorted: "mset (insert_sorted cmp x xs) = add_mset x (mset xs)"
  by (induction xs) auto

lemma mset_std_sort: "mset (std_sort cmp xs) = mset xs"
  by (induction xs) (auto simp: std_sort_def mset_insert_sorted)

text \<open>
  Claim C9, as stated: the rows written by \<open>save_to_csv\<close> of either engine are sorted by
  support descending, ties by length descending. The greedy engine's \<open>save_to_csv\<close> does
  not sort; it writes the phrases in the order the candidate loop emitted them, and a
  candidate's support can drop below that of a later candidate while it is extended. On
  the corpus \<open>a x\<close>, \<open>a y\<close>, \<open>a\<close>, \<open>b\<close>, \<open>b\<close> with \<open>min_docs = 1\<close> and
  \<open>ngrams = 1\<close> the rows carry the supports 1, 2, 1, with the hash maps iterating in
  insertion order and in reverse alike.
\<close>

theorem gme_csv_unsorted_counterexample:
  \<open>gme_mine insertion_order never_stop [[0, 1], [0, 2], [0], [3], [3]] 1 1 =
     Inr [\<lparr>tokens = [0, 2], support = 1, occs = [\<lparr>doc_id = 1, pos = 0\<rparr>]\<rparr>,
          \<lparr>tokens = [3], support = 2, occs = [\<lparr>doc_id = 3, pos = 0\<rparr>, \<lparr>doc_id = 4, pos = 0\<rparr>]\<rparr>,
          \<lparr>tokens = [1], support = 1, occs = [\<lparr>doc_id = 0, pos = 1\<rparr>]\<rparr>]
   \<and> gme_save_to_csv insertion_order [''a'', ''x'', ''y'', ''b''] [''f0'', ''f1'', ''f2'', ''f3'', ''f4'']
         [\<lparr>tokens = [0, 2], support = 1, occs = [\<lparr>doc_id = 1, pos = 0\<rparr>]\<rparr>,
          \<lparr>tokens = [3], support = 2, occs = [\<lparr>doc_id = 3, pos = 0\<rparr>, \<lparr>doc_id = 4, pos = 0\<rparr>]\<rparr>,
          \<lparr>tokens = [1], support = 1, occs = [\<lparr>doc_id = 0, pos = 1\<rparr>]\<rparr>] =
       ''phrase,freq,length,example_files\<newline>"a y",1,2,"f1|"\<newline>"b",2,1,"f3|f4"\<newline>"x",1,1,"f0|"\<newline>''
   \<and> gme_mine reverse_order never_stop [[0, 1], [0, 2], [0], [3], [3]] 1 1 =
     Inr [\<lparr>tokens = [0, 1], support = 1, occs = [\<lparr>doc_id = 0, pos = 0\<rparr>]\<rparr>,
          \<lparr>tokens = [3], support = 2, occs = [\<lparr>doc_id = 3, pos = 0\<rparr>, \<lparr>doc_id = 4, pos = 0\<rparr>]\<rparr>,
          \<lparr>tokens = [2], support = 1, occs = [\<lparr>doc_id = 1, pos = 1\<rparr>]\<rparr>]\<close>
  by code_simp

text \<open>
  Claim C9, amended: the PrefixSpan engine's \<open>save_to_csv\<close> writes one row per phrase,
  sorted by support descending with ties broken by token-sequence length descending; the
  greedy engine's \<open>save_to_csv\<close> writes the phrases in emission order.
\<close>

theorem cps_csv_sorted:
  "cps_save_to_csv ho id_to_word file_paths res =
     csv_header @ concat (map (cps_csv_row ho id_to_word file_paths) (cps_csv_order res))
   \<and> sorted_wrt sup_len_desc (cps_csv_order res)
   \<and> mset (cps_csv_order res) = mset res
   \<and> gme_save_to_csv ho id_to_word file_paths final_phrases =
       csv_header @ concat (map (gme_csv_row ho id_to_word file_paths) final_phrases)"
  by (simp add: cps_save_to_csv_def gme_save_to_csv_def sorted_cps_csv_order)
     (simp add: cps_csv_order_def mset_std_sort)

section \<open>Loading and the whole pipeline\<close>





text \<open>
  The data members of \<open>CorpusMiner\<close> that loading fills: the dictionary in both
  directions, the encoded documents and their paths.
\<close>

record miner =
  word_to_id :: "(string \<times> nat) list"
  id_to_word :: "string list"
  docs_of :: corpus
  file_paths_of :: "string list"




subsection \<open>The sampling rate\<close>

text \<open>
  \<open>sampling\<close> is a \<open>double\<close>. \<open>Finite s m e\<close> is the number \<open>m * 2 ^ e\<close>, negative when
  \<open>s\<close> holds; an IEEE double has \<open>m < 2 ^ 53\<close>. The source converts the number of files
  to \<open>double\<close>, multiplies, and converts the product to \<open>size_t\<close>: both roundings are to
  the nearest double, ties to the even mantissa, and the conversion back truncates towards
  zero, and is undefined for a negative value and for one that needs more than 64 bits. A
  product too large for a double is kept as a finite number here; it has no \<open>size_t\<close>
  value either way.
\<close>

datatype double = Finite bool nat int | Infinite bool | NaN

function bit_length :: "nat \<Rightarrow> nat" where
  "bit_length n = (if n = 0 then 0 else Suc (bit_length (n div 2)))"
  by pat_completeness auto
termination
  by (relation "measure (\<lambda>n. n)") auto

declare bit_length.simps [simp del]

definition round_to_double :: "nat \<Rightarrow> int \<Rightarrow> nat \<times> int" where
  "round_to_double m e =
     (if bit_length m \<le> 53 then (m, e)
      else
        (let s = bit_length m - 53; q = m div 2 ^ s; r = m mod 2 ^ s; half = 2 ^ (s - 1)
         in (if half < r \<or> (r = half \<and> odd q) then q + 1 else q, e + int s)))"

definition size_t_times_double :: "nat \<Rightarrow> double \<Rightarrow> double" where
  "size_t_times_double n x =
     (case x of
        Finite s m e \<Rightarrow>
          (case round_to_double n 0 of
             (m0, e0) \<Rightarrow> (case round_to_double (m0 * m) (e0 + e) of (q, e') \<Rightarrow> Finite s q e'))
      | Infinite s \<Rightarrow> (if n = 0 then NaN else Infinite s)
      | NaN \<Rightarrow> NaN)"

definition size_t_of_double :: "double \<Rightarrow> error + nat" where
  "size_t_of_double x =
     (case x of
        Finite s m e \<Rightarrow>
          (let t = (if 0 \<le> e then m * 2 ^ nat e else m div 2 ^ nat (- e))
           in if t = 0 then Inr 0
              else if s \<or> 64 < bit_length t then Inl UndefinedCast
              else Inr t)
      | Infinite s \<Rightarrow> Inl UndefinedCast
      | NaN \<Rightarrow> Inl UndefinedCast)"


text \<open>The doubles nearest to 1, 0.5, 0.7 and 0.29.\<close>

definition double_1 :: double where "double_1 = Finite False 1 0"
definition double_0_5 :: double where "double_0_5 = Finite False 1 (- 1)"
definition double_0_7 :: double where "double_0_7 = Finite False 6305039478318694 (- 53)"
definition double_0_29 :: double where "double_0_29 = Finite False 5224175567749775 (- 54)"

lemma sample_count_examples:
  "size_t_of_double (size_t_times_double 10 double_0_7) = Inr 7"
  "size_t_of_double (size_t_times_double 100 double_0_29) = Inr 28"
  "size_t_of_double (size_t_times_double 4 double_0_5) = Inr 2"
  "size_t_of_double (size_t_times_double 3 double_1) = Inr 3"
  "size_t_of_double (size_t_times_double 10 (Finite True 1 (- 1))) = Inl UndefinedCast"
  "size_t_of_double (size_t_times_double 1 (Finite True 1 (- 1))) = Inr 0"
  by (simp_all add: size_t_of_double_def size_t_times_double_def round_to_double_def
        bit_length.simps double_0_7_def double_0_29_def double_0_5_def double_1_def Let_def)

subsection \<open>\<open>load_directory\<close>\<close>











subsection \<open>\<open>load_csv\<close>\<close>








subsection \<open>Determinism\<close>






section \<open>Forward closure in \<open>MODE_CLOSED\<close>\<close>

lemma contains_phrase_iff: "contains_phrase toks doc \<longleftrightarrow> (\<exists>j. occurs_at doc toks j)"
proof
  assume "contains_phrase toks doc"
  then show "\<exists>j. occurs_at doc toks j"
    by (auto simp: contains_phrase_def list_ex_iff)
next
  assume "\<exists>j. occurs_at doc toks j"
  then obtain j where j: "occurs_at doc toks j" ..
  then have "j < Suc (length doc)" by (simp add: occurs_at_def)
  with j show "contains_phrase toks doc"
    unfolding contains_phrase_def list_ex_iff by (intro bexI [of _ j]) auto
qed

lemma doc_support_card:
  "doc_support docs toks = card {d. d < length docs \<and> (\<exists>j. occurs_at (docs ! d) toks j)}"
  by (simp add: doc_support_def length_filter_conv_card contains_phrase_iff)

lemma occurs_at_Nil: "occurs_at doc [] j \<longleftrightarrow> j \<le> length doc"
  by (simp add: occurs_at_def)

lemma occurs_at_snoc:
  "occurs_at doc (toks @ [w]) j \<longleftrightarrow>
     occurs_at doc toks j \<and> j + length toks < length doc \<and> doc ! (j + length toks) = w"
proof (cases "j + length toks < length doc")
  case False
  then show ?thesis by (auto simp: occurs_at_def)
next
  case True
  then have "take (Suc (length toks)) (drop j doc) =
             take (length toks) (drop j doc) @ [doc ! (j + length toks)]"
    by (simp add: take_Suc_conv_app_nth)
  with True show ?thesis by (auto simp: occurs_at_def)
qed

lemma remdups_adj_snoc:
  "remdups_adj (ys @ [d]) = (if ys = [] \<or> last ys \<noteq> d then remdups_adj ys @ [d] else remdups_adj ys)"
proof (cases ys rule: rev_cases)
  case Nil
  then show ?thesis by simp
next
  case (snoc zs z)
  then show ?thesis by (simp add: remdups_adj_append_two)
qed

lemma sorted_remdups_adj_distinct: "sorted xs \<Longrightarrow> distinct (remdups_adj xs)"
  by (induction xs rule: remdups_adj.induct) (auto split: if_splits)

lemma length_remdups_adj_sorted: "sorted xs \<Longrightarrow> length (remdups_adj xs) = card (set xs)"
  using distinct_card [OF sorted_remdups_adj_distinct, of xs] by simp

definition next_is :: "corpus \<Rightarrow> token \<Rightarrow> projection \<Rightarrow> bool" where
  "next_is docs w = (\<lambda>proj. pos proj < length (docs ! doc_id proj) \<and> docs ! doc_id proj ! pos proj = w)"

lemma map_of_occ_delivery:
  "map_of (occ_delivery docs db) w =
     (if filter (next_is docs w) db = [] then None
      else Some (remdups_adj (map doc_id (filter (next_is docs w) db))))"
proof (induction db arbitrary: w rule: rev_induct)
  case Nil
  show ?case by (simp add: occ_delivery_def)
next
  case (snoc x db)
  let ?M = "occ_delivery docs db"
  have step: "occ_delivery docs (db @ [x]) = occ_visit docs x ?M"
    by (simp add: occ_delivery_def)
  have find: "umap_find ?M t = remdups_adj (map doc_id (filter (next_is docs t) db))" for t
    by (simp add: umap_find_def snoc.IH)
  show ?case
  proof (cases "pos x < length (docs ! doc_id x)")
    case False
    then show ?thesis by (simp add: step occ_visit_def snoc.IH next_is_def)
  next
    case True
    let ?t = "docs ! doc_id x ! pos x"
    have nx: "next_is docs w x \<longleftrightarrow> w = ?t" using True by (auto simp: next_is_def)
    show ?thesis
    proof (cases "w = ?t")
      case False
      with True show ?thesis
        by (simp add: step occ_visit_def Let_def map_of_umap_push_back snoc.IH nx)
    next
      case w: True
      let ?ys = "map doc_id (filter (next_is docs ?t) db)"
      show ?thesis
      proof (cases "?ys = [] \<or> last ?ys \<noteq> doc_id x")
        case push: True
        then have "occ_visit docs x ?M = umap_push_back ?t (doc_id x) ?M"
          using True by (auto simp: occ_visit_def Let_def find)
        moreover have "(case map_of ?M ?t of None \<Rightarrow> [doc_id x] | Some vs \<Rightarrow> vs @ [doc_id x])
                       = remdups_adj ?ys @ [doc_id x]"
          by (simp add: snoc.IH)
        moreover have "remdups_adj (?ys @ [doc_id x]) = remdups_adj ?ys @ [doc_id x]"
          using push by (simp add: remdups_adj_snoc)
        ultimately show ?thesis
          using w nx by (simp add: step map_of_umap_push_back)
      next
        case nopush: False
        then have "occ_visit docs x ?M = ?M"
          using True by (auto simp: occ_visit_def Let_def find)
        moreover have "remdups_adj (?ys @ [doc_id x]) = remdups_adj ?ys"
          using nopush by (simp add: remdups_adj_snoc)
        ultimately show ?thesis
          using w nx nopush by (simp add: step snoc.IH)
      qed
    qed
  qed
qed

text \<open>
  The projected database at a prefix: its document ids ascend, and its points are exactly
  the positions right behind a match of the prefix that are still inside the document.
\<close>

definition db_points :: "projection list \<Rightarrow> (nat \<times> nat) set" where
  "db_points db = (\<lambda>proj. (doc_id proj, pos proj)) ` set db"

definition db_inv :: "corpus \<Rightarrow> token list \<Rightarrow> projection list \<Rightarrow> bool" where
  "db_inv docs prefix db \<longleftrightarrow>
     sorted (map doc_id db) \<and>
     db_points db = {(d, q). d < length docs \<and> q < length (docs ! d) \<and> length prefix \<le> q \<and>
                             occurs_at (docs ! d) prefix (q - length prefix)}"

lemma sorted_concat_replicate:
  "sorted ns \<Longrightarrow> sorted (concat (map (\<lambda>i. replicate (f i) (i::nat)) ns))"
  by (induction ns) (auto simp: sorted_append)

lemma map_doc_id_initial_db:
  "map doc_id (initial_db docs) = concat (map (\<lambda>i. replicate (length (docs ! i)) i) [0..<length docs])"
proof -
  have "map doc_id (if docs ! i \<noteq> []
                    then map (\<lambda>j. \<lparr>doc_id = i, pos = j, origin = j\<rparr>) [0..<length (docs ! i)]
                    else []) = replicate (length (docs ! i)) i" for i
    by (simp add: comp_def map_replicate_const)
  then show ?thesis
    by (simp add: initial_db_def map_concat comp_def)
qed

lemma db_inv_initial: "db_inv docs [] (initial_db docs)"
proof -
  have "sorted (map doc_id (initial_db docs))"
    unfolding map_doc_id_initial_db by (rule sorted_concat_replicate) simp
  moreover have "db_points (initial_db docs) = {(d, q). d < length docs \<and> q < length (docs ! d)}"
    by (auto simp: db_points_def initial_db_def image_iff split: if_splits)
  ultimately show ?thesis
    by (auto simp: db_inv_def occurs_at_Nil)
qed

lemma db_points_next_db:
  "db_points (next_db docs db w) =
     {(d, Suc q) | d q. (d, q) \<in> db_points db \<and> q < length (docs ! d) \<and> docs ! d ! q = w
                         \<and> Suc q < length (docs ! d)}"
  by (auto simp: db_points_def next_db_def image_iff) force

lemma db_inv_next_db:
  assumes "db_inv docs prefix db"
  shows "db_inv docs (prefix @ [w]) (next_db docs db w)"
proof -
  have s: "sorted (map doc_id db)" and
    pts: "db_points db = {(d, q). d < length docs \<and> q < length (docs ! d) \<and> length prefix \<le> q \<and>
                             occurs_at (docs ! d) prefix (q - length prefix)}"
    using assms by (auto simp: db_inv_def)
  have "map doc_id (next_db docs db w) =
        map doc_id (filter (\<lambda>proj. pos proj < length (docs ! doc_id proj)
                     \<and> docs ! doc_id proj ! pos proj = w
                     \<and> pos proj + 1 < length (docs ! doc_id proj)) db)"
    by (simp add: next_db_def comp_def)
  with s have 1: "sorted (map doc_id (next_db docs db w))"
    by (simp only: sorted_filter)
  have 2: "db_points (next_db docs db w) =
       {(d, q). d < length docs \<and> q < length (docs ! d) \<and> length (prefix @ [w]) \<le> q \<and>
                             occurs_at (docs ! d) (prefix @ [w]) (q - length (prefix @ [w]))}"
    (is "?L = ?R")
  proof (intro set_eqI iffI)
    fix x assume "x \<in> ?L"
    then obtain d q where x: "x = (d, Suc q)" and m: "(d, q) \<in> db_points db"
      and w: "docs ! d ! q = w" and l: "Suc q < length (docs ! d)"
      unfolding db_points_next_db by blast
    from m pts have p: "d < length docs" "length prefix \<le> q"
        "occurs_at (docs ! d) prefix (q - length prefix)" by auto
    have "occurs_at (docs ! d) (prefix @ [w]) (q - length prefix)"
      unfolding occurs_at_snoc using p w l by simp
    moreover have "Suc q - length (prefix @ [w]) = q - length prefix" by simp
    ultimately show "x \<in> ?R" using p l x by simp
  next
    fix x assume "x \<in> ?R"
    then obtain d q' where x: "x = (d, q')" and d: "d < length docs" and l: "q' < length (docs ! d)"
      and g: "length (prefix @ [w]) \<le> q'"
      and o: "occurs_at (docs ! d) (prefix @ [w]) (q' - length (prefix @ [w]))"
      by auto
    from g obtain q where q: "q' = Suc q" "length prefix \<le> q" by (cases q') auto
    have e: "q' - length (prefix @ [w]) = q - length prefix" using q by simp
    from o [unfolded e occurs_at_snoc] q
    have o': "occurs_at (docs ! d) prefix (q - length prefix)" and w: "docs ! d ! q = w"
      by auto
    have "(d, q) \<in> db_points db" using pts d l q o' by auto
    then have "(d, Suc q) \<in> {(d, Suc q) | d q. (d, q) \<in> db_points db \<and> q < length (docs ! d)
                  \<and> docs ! d ! q = w \<and> Suc q < length (docs ! d)}"
      using w l q by auto
    then show "x \<in> ?L" by (simp only: db_points_next_db x q(1))
  qed
  from 1 2 show ?thesis unfolding db_inv_def by (rule conjI)
qed

lemma extension_docs:
  assumes "db_inv docs prefix db"
  shows "doc_id ` {proj \<in> set db. next_is docs w proj} =
         {d. d < length docs \<and> (\<exists>j. occurs_at (docs ! d) (prefix @ [w]) j)}" (is "?L = ?R")
proof -
  have pts: "db_points db = {(d, q). d < length docs \<and> q < length (docs ! d) \<and> length prefix \<le> q \<and>
                             occurs_at (docs ! d) prefix (q - length prefix)}"
    using assms by (auto simp: db_inv_def)
  show ?thesis
  proof (intro set_eqI iffI)
    fix d assume "d \<in> ?L"
    then obtain proj where pr: "proj \<in> set db" "next_is docs w proj" "d = doc_id proj" by auto
    then have "(d, pos proj) \<in> db_points db" by (auto simp: db_points_def)
    with pts have p: "d < length docs" "pos proj < length (docs ! d)" "length prefix \<le> pos proj"
        "occurs_at (docs ! d) prefix (pos proj - length prefix)" by auto
    have "docs ! d ! pos proj = w" using pr by (simp add: next_is_def)
    with p have "occurs_at (docs ! d) (prefix @ [w]) (pos proj - length prefix)"
      unfolding occurs_at_snoc by simp
    with p(1) show "d \<in> ?R" by blast
  next
    fix d assume "d \<in> ?R"
    then obtain j where d: "d < length docs" and o: "occurs_at (docs ! d) (prefix @ [w]) j" by auto
    from o [unfolded occurs_at_snoc]
    have o': "occurs_at (docs ! d) prefix j" and l: "j + length prefix < length (docs ! d)"
      and w: "docs ! d ! (j + length prefix) = w" by auto
    have "(d, j + length prefix) \<in> db_points db" using pts d o' l by simp
    then obtain proj where pr: "proj \<in> set db" "doc_id proj = d" "pos proj = j + length prefix"
      by (auto simp: db_points_def)
    then have "next_is docs w proj" using l w by (simp add: next_is_def)
    with pr show "d \<in> ?L" by force
  qed
qed

lemma occ_delivery_support:
  assumes "db_inv docs prefix db"
  shows "map_of (occ_delivery docs db) w =
           (if doc_support docs (prefix @ [w]) = 0 then None
            else Some (remdups_adj (map doc_id (filter (next_is docs w) db))))
         \<and> length (remdups_adj (map doc_id (filter (next_is docs w) db))) = doc_support docs (prefix @ [w])"
proof -
  let ?ys = "map doc_id (filter (next_is docs w) db)"
  have "sorted (map doc_id db)" using assms by (simp add: db_inv_def)
  then have "sorted ?ys" by (rule sorted_filter)
  then have "length (remdups_adj ?ys) = card (set ?ys)" by (rule length_remdups_adj_sorted)
  also have "set ?ys = doc_id ` {proj \<in> set db. next_is docs w proj}" by auto
  also have "card \<dots> = doc_support docs (prefix @ [w])"
    by (simp only: extension_docs [OF assms] doc_support_card)
  finally have len: "length (remdups_adj ?ys) = doc_support docs (prefix @ [w])" .
  then have "filter (next_is docs w) db = [] \<longleftrightarrow> doc_support docs (prefix @ [w]) = 0"
    by (metis length_0_conv map_is_Nil_conv remdups_adj_Nil_iff)
  with len show ?thesis by (simp add: map_of_occ_delivery)
qed

lemma mine_recursive_closed:
  "db_inv docs prefix db \<Longrightarrow>
     prefix \<noteq> [] \<longrightarrow> cs = doc_support docs prefix \<and> 0 < cs \<and> min_docs \<le> cs \<Longrightarrow>
     p \<in> set (mine_recursive ho stop docs min_docs min_length MODE_CLOSED db prefix cs) \<Longrightarrow>
     tokens p \<noteq> [] \<Longrightarrow>
     support p = doc_support docs (tokens p) \<and> doc_support docs (tokens p @ [w]) \<noteq> support p"
proof (induction ho stop docs min_docs min_length MODE_CLOSED db prefix cs rule: mine_recursive.induct)
  case (1 ho stop docs min_docs min_length db prefix cs)
  note inv = "1.prems"(1) and sup = "1.prems"(2)
    and mem = "1.prems"(3) and ne = "1.prems"(4)
  let ?items = "umap_iter (umap_order ho) (occ_delivery docs db)"
  from mem [unfolded mine_recursive_mem [of p ho stop docs min_docs min_length MODE_CLOSED db prefix cs]]
  consider (own) "should_output min_docs min_length MODE_CLOSED prefix cs (occ_delivery docs db)"
                 "p = emit_phrase ho db prefix cs"
    | (child) token doc_ids where "\<not> stop" "(token, doc_ids) \<in> set ?items"
        "min_docs \<le> length doc_ids" "next_db docs db token \<noteq> []"
        "p \<in> set (mine_recursive ho stop docs min_docs min_length MODE_CLOSED
                        (next_db docs db token) (prefix @ [token]) (length doc_ids))"
    by auto
  then show ?case
  proof cases
    case own
    then have tp: "tokens p = prefix" "support p = cs" by (simp_all add: emit_phrase_def)
    with ne have "prefix \<noteq> []" by simp
    with sup have cs: "cs = doc_support docs prefix" "0 < cs" "min_docs \<le> cs" by auto
    have "doc_support docs (prefix @ [w]) \<noteq> cs"
    proof
      assume eq: "doc_support docs (prefix @ [w]) = cs"
      let ?ds = "remdups_adj (map doc_id (filter (next_is docs w) db))"
      from occ_delivery_support [OF inv, of w] eq cs(2)
      have m: "map_of (occ_delivery docs db) w = Some ?ds" and l: "length ?ds = cs" by auto
      from m have "(w, ?ds) \<in> set (occ_delivery docs db)" by (rule map_of_SomeD)
      with l cs(3) have "has_extension_with_same_support min_docs cs (occ_delivery docs db)"
        unfolding has_extension_with_same_support_def list_ex_iff by (intro bexI [of _ "(w, ?ds)"]) auto
      with own(1) show False
        by (simp add: should_output_def)
    qed
    with tp cs show ?thesis by simp
  next
    case child
    from umap_iter_map_of [OF child(2)]
    have m: "map_of (occ_delivery docs db) token = Some doc_ids" .
    with occ_delivery_support [OF inv, of token]
    have l: "length doc_ids = doc_support docs (prefix @ [token])"
      and z: "doc_support docs (prefix @ [token]) \<noteq> 0"
      by (auto split: if_splits)
    have inv': "db_inv docs (prefix @ [token]) (next_db docs db token)"
      using inv by (rule db_inv_next_db)
    have sup': "prefix @ [token] \<noteq> [] \<longrightarrow>
        length doc_ids = doc_support docs (prefix @ [token]) \<and> 0 < length doc_ids
        \<and> min_docs \<le> length doc_ids"
      using l z child(3) by simp
    have g: "min_docs \<le> length doc_ids \<and> next_db docs db token \<noteq> []"
      using child(3,4) by simp
    from "1.hyps" [OF child(1,2) refl g inv' sup' child(5) ne]
    show ?thesis .
  qed
qed

text \<open>
  Claim C8, as stated: in \<open>MODE_CLOSED\<close> no emitted phrase admits a one-token rightward
  extension whose distinct-doc support equals the phrase's support. The test that blocks
  the output looks only at extensions with support at least \<open>min_docs\<close>; at the root,
  reached with \<open>L = 0\<close>, the support of the empty prefix may lie below \<open>min_docs\<close>. One
  document \<open>a\<close>, \<open>min_docs = 5\<close>: the empty phrase is emitted with support 1, and its
  extension \<open>a\<close> occurs in 1 document.
\<close>

theorem cps_closed_counterexample:
  "cps_mine insertion_order False [''row_0''] [[0]] 5 0 =
     [\<lparr>tokens = [], support = 1, occs = [0]\<rparr>]
   \<and> doc_support [[0]] ([] @ [0]) = 1"
  by code_simp

text \<open>
  Claim C8, amended: in \<open>MODE_CLOSED\<close>, no phrase with at least one token emitted by the
  PrefixSpan engine (every phrase it emits when \<open>L \<ge> 1\<close>) admits a one-token contiguous
  rightward extension whose distinct-doc support equals the emitted phrase's support; the
  support field of such a phrase is the number of documents that contain the phrase.
\<close>

theorem cps_closed_forward:
  assumes "p \<in> set (run ho stop docs min_docs min_length MODE_CLOSED)"
    and "0 < min_length \<or> tokens p \<noteq> []"
  shows "support p = doc_support docs (tokens p) \<and>
         doc_support docs (tokens p @ [w]) \<noteq> support p"
proof -
  from run_floor [OF assms(1)] assms(2) have ne: "tokens p \<noteq> []" by auto
  have "[] \<noteq> [] \<longrightarrow> length (initial_docs docs) = doc_support docs [] \<and>
          0 < length (initial_docs docs) \<and> min_docs \<le> length (initial_docs docs)"
    by simp
  from mine_recursive_closed [OF db_inv_initial this assms(1) [unfolded run_def] ne]
  show ?thesis .
qed

theorem cps_closed_forward_witness:
  "run insertion_order False [[0, 1, 2], [0, 1, 3], [0, 4]] 2 2 MODE_CLOSED =
     [\<lparr>tokens = [0, 1], support = 2, occs = [0, 1]\<rparr>]
   \<and> doc_support [[0, 1, 2], [0, 1, 3], [0, 4]] [0, 1] = 2
   \<and> doc_support [[0, 1, 2], [0, 1, 3], [0, 4]] ([0, 1] @ [2]) \<noteq> 2"
proof -
  let ?docs = "[[0, 1, 2], [0, 1, 3], [0, 4 :: nat]]"
  let ?p = "\<lparr>tokens = [0, 1 :: nat], support = 2 :: nat, occs = [0, 1 :: nat]\<rparr>"
  have r: "run insertion_order False ?docs 2 2 MODE_CLOSED = [?p]"
    by code_simp
  then have a: "?p \<in> set (run insertion_order False ?docs 2 2 MODE_CLOSED)" by simp
  have b: "0 < (2 :: nat) \<or> tokens ?p \<noteq> []" by simp
  from cps_closed_forward [OF a b, of 2] r show ?thesis by simp
qed

end
